theory Spec2Isabelle
  imports Main "HOL-Library.Word"
begin

section \<open>Data model\<close>

text \<open>
  \<open>data_t\<close> is the repository's \<open>std::vector\<close> of \<open>unsigned char\<close>: a list of bytes.
  A nonce (\<open>CryptorAEAD::nonce_type\<close>) is a byte string of fixed width.
\<close>

type_synonym byte = "8 word"
type_synonym data_t = "byte list"
type_synonym nonce_type = "byte list"

text \<open>
  Modelled from the spec: \<open>key.h\<close> is missing. The secret-key container holds the key
  bytes (\<open>keydata\<close>) together with the memory protection of the page they live in;
  \<open>readonly()\<close> is the transition to the read-only state. The container is the same for
  every key size; the size of a key is the length of \<open>keydata\<close>.
\<close>

datatype protection = ReadWrite | ReadOnly | NoAccess

record Key =
  keydata :: data_t
  protection :: protection

definition readonly :: "Key \<Rightarrow> Key" where
  "readonly k = k\<lparr>protection := ReadOnly\<rparr>"

text \<open>
  Modelled from the spec: \<open>common.h\<close> is missing. \<open>KEYSIZE\<close> is the key length the AEAD
  requires (\<open>crypto_aead_chacha20poly1305_KEYBYTES\<close>).
\<close>

definition KEYSIZE :: nat where
  "KEYSIZE = 32"

text \<open>
  Modelled from the spec: the declaration of \<open>CryptorAEAD::key_type\<close> is missing. The
  spec's key is a fixed-size secret byte sequence of the length that the AEAD requires, and
  the sources that are there instantiate the key container at a size
  (\<open>Key<KEYSIZE_PRIVKEY>\<close> in \<open>keypair.h\<close>) and default-construct a \<open>key_type\<close> in the
  tests. So the type holds the keys of \<open>KEYSIZE\<close> bytes and no others: a key of another
  length is not a value that a parameter or a member of this type can have.
  \<open>Rep_key_type\<close> gives the container of such a key, and \<open>key_type_readonly\<close> is
  \<open>readonly()\<close> on this type.
\<close>

typedef key_type = "{k :: Key. length (keydata k) = KEYSIZE}"
  by (rule exI [of _ "\<lparr>keydata = replicate KEYSIZE 0, protection = ReadWrite\<rparr>"]) simp

setup_lifting type_definition_key_type

lift_definition key_type_readonly :: "key_type \<Rightarrow> key_type" is readonly
  by (simp add: readonly_def)

text \<open>Two keys of this type are equal when their containers are.\<close>

instantiation key_type :: equal
begin

lift_definition equal_key_type :: "key_type \<Rightarrow> key_type \<Rightarrow> bool" is "(=)" .

instance
  by standard (transfer, simp)

end

text \<open>
  Every failure of the source is a \<open>throw std::runtime_error\<close>; the constructors name
  the throw sites by kind: a constructor's sanity check, a chunk whose tag does not verify
  (thrown by \<open>CryptorAEAD::decrypt\<close>), the final \<open>hash mismatch!\<close>, and a stream that
  cannot be sought, read or written.
\<close>

datatype error = ConfigurationError | AuthFailure | IntegrityFailure | IOFailure

subsection \<open>External primitives\<close>

text \<open>
  The libsodium calls used by the code are parameters of the model: the AEAD construction
  with its tag width \<open>MACSIZE\<close> (\<open>crypto_aead_chacha20poly1305_ABYTES\<close>), the increment of a
  nonce, and the keyed streaming hash \<open>crypto_generichash_{init,update,final}\<close> with a
  state of type \<open>'h\<close>.
\<close>

record 'h primitives =
  MACSIZE :: nat
  aead_seal :: "data_t \<Rightarrow> data_t \<Rightarrow> data_t \<Rightarrow> nonce_type \<Rightarrow> data_t"
  aead_open :: "data_t \<Rightarrow> data_t \<Rightarrow> data_t \<Rightarrow> nonce_type \<Rightarrow> data_t option"
  increment :: "nonce_type \<Rightarrow> nonce_type"
  generichash_init :: "data_t \<Rightarrow> nat \<Rightarrow> 'h"
  generichash_update :: "'h \<Rightarrow> data_t \<Rightarrow> 'h"
  generichash_final :: "'h \<Rightarrow> nat \<Rightarrow> data_t"

text \<open>
  What the code relies on from the primitives: a sealed chunk is \<open>MACSIZE\<close> bytes longer
  than its plaintext, opening a sealed chunk under the same header, key and nonce gives the
  plaintext back, nothing opens unless it has that length, and the hash fills the whole
  output buffer.
\<close>

definition primitives_ok :: "'h primitives \<Rightarrow> bool" where
  "primitives_ok pr \<longleftrightarrow>
     (\<forall>h p k n. length (aead_seal pr h p k n) = MACSIZE pr + length p) \<and>
     (\<forall>h p k n. aead_open pr h (aead_seal pr h p k n) k n = Some p) \<and>
     (\<forall>h c k n p. aead_open pr h c k n = Some p \<longrightarrow> length c = MACSIZE pr + length p) \<and>
     (\<forall>st n. length (generichash_final pr st n) = n)"

subsection \<open>The chunk codec\<close>

text \<open>
  Modelled from the spec: \<open>cryptoraead.cpp\<close> is missing (only the declarations of
  \<open>CryptorAEAD::encrypt\<close> and \<open>CryptorAEAD::decrypt\<close> are there). \<open>encryptChunk\<close> seals one
  chunk; \<open>decryptChunk\<close> returns the plaintext or fails with \<open>AuthFailure\<close> when the tag
  does not verify against the header, ciphertext, key and nonce.
\<close>

definition CryptorAEAD_encrypt ::
  "'h primitives \<Rightarrow> data_t \<Rightarrow> data_t \<Rightarrow> key_type \<Rightarrow> nonce_type \<Rightarrow> data_t" where
  "CryptorAEAD_encrypt pr header plaintext key nonce =
     aead_seal pr header plaintext (keydata (Rep_key_type key)) nonce"

definition CryptorAEAD_decrypt ::
  "'h primitives \<Rightarrow> data_t \<Rightarrow> data_t \<Rightarrow> key_type \<Rightarrow> nonce_type \<Rightarrow> error + data_t" where
  "CryptorAEAD_decrypt pr header ciphertext_with_mac key nonce =
     (case aead_open pr header ciphertext_with_mac (keydata (Rep_key_type key)) nonce of
        None \<Rightarrow> Inl AuthFailure
      | Some plain \<Rightarrow> Inr plain)"

subsection \<open>Streams\<close>

text \<open>
  An input stream over a byte sequence: the read position, the \<open>eofbit\<close> and \<open>failbit\<close>
  state flags, and the count of the last unformatted read.
\<close>

record istream =
  content :: data_t
  pos :: nat
  eofbit :: bool
  failbit :: bool
  gcount :: nat

definition istream_of :: "data_t \<Rightarrow> istream" where
  "istream_of xs = \<lparr>content = xs, pos = 0, eofbit = False, failbit = False, gcount = 0\<rparr>"

text \<open>
  \<open>read(buf, n)\<close>: on a stream that is not good nothing is extracted and \<open>failbit\<close> is
  set; otherwise up to \<open>n\<close> bytes are extracted, and a read that ends early sets
  \<open>eofbit\<close> and \<open>failbit\<close>. The bytes extracted are returned with the stream.
\<close>

definition istream_read :: "istream \<Rightarrow> nat \<Rightarrow> data_t \<times> istream" where
  "istream_read s n =
     (if eofbit s \<or> failbit s then ([], s\<lparr>failbit := True, gcount := 0\<rparr>)
      else let got = take n (drop (pos s) (content s))
           in (got, s\<lparr>pos := pos s + length got,
                      eofbit := length got < n,
                      failbit := length got < n,
                      gcount := length got\<rparr>))"

text \<open>
  The bytes extracted overwrite the front of the buffer; the size of the vector that owns
  the buffer does not change.
\<close>

definition store :: "data_t \<Rightarrow> data_t \<Rightarrow> data_t" where
  "store buf got = take (length buf) (got @ drop (length got) buf)"

text \<open>\<open>std::vector::resize\<close>: truncate, or pad with zero bytes.\<close>

definition resize :: "data_t \<Rightarrow> nat \<Rightarrow> data_t" where
  "resize buf n = take n buf @ replicate (n - length buf) 0"

text \<open>
  \<open>seekg(off, end)\<close> and \<open>seekg(off, beg)\<close> clear \<open>eofbit\<close>, do nothing on a failed
  stream, and fail when the target lies outside the file. \<open>tellg()\<close> is \<open>-1\<close> on a
  failed stream.
\<close>

definition seekg_to :: "istream \<Rightarrow> int \<Rightarrow> istream" where
  "seekg_to s target =
     (let s1 = s\<lparr>eofbit := False\<rparr>
      in if failbit s1 then s1
         else if target < 0 \<or> int (length (content s1)) < target then s1\<lparr>failbit := True\<rparr>
         else s1\<lparr>pos := nat target\<rparr>)"

definition seekg_end :: "istream \<Rightarrow> int \<Rightarrow> istream" where
  "seekg_end s off = seekg_to s (int (length (content s)) + off)"

definition seekg_beg :: "istream \<Rightarrow> int \<Rightarrow> istream" where
  "seekg_beg s off = seekg_to s off"

definition tellg :: "istream \<Rightarrow> int" where
  "tellg s = (if failbit s then - 1 else int (pos s))"

text \<open>
  An output stream: the bytes written so far, the room left in the sink, and
  \<open>badbit\<close>. A write that does not fit writes what fits and sets \<open>badbit\<close>; a bad stream
  ignores writes.
\<close>

record ostream =
  written :: data_t
  room :: nat
  badbit :: bool

definition ostream_write :: "ostream \<Rightarrow> data_t \<Rightarrow> ostream" where
  "ostream_write s xs =
     (if badbit s then s
      else if length xs \<le> room s
      then s\<lparr>written := written s @ xs, room := room s - length xs\<rparr>
      else s\<lparr>written := written s @ take (room s) xs, room := 0, badbit := True\<rparr>)"

text \<open>
  Sizes and counts are natural numbers, stream positions are integers. The source computes
  the size of a full chunk, \<open>MACSIZE + blocksize_\<close>, in \<open>std::size_t\<close> and hands it to
  \<open>read\<close> as a \<open>std::streamsize\<close>. Up to the largest \<open>std::streamsize\<close> of a 64-bit
  platform, which is also the most bytes that a vector can hold, that is the sum of the
  two natural numbers; a larger sum is outside what the model describes.
\<close>

definition streamsize_max :: nat where
  "streamsize_max = 2 ^ 63 - 1"

subsection \<open>The stream cipher instances\<close>

text \<open>
  The fields of \<open>StreamCryptor\<close> (\<open>streamcryptor.h\<close>); a member's trailing
  underscore is written as a prime. \<open>FileCryptor\<close> has the same fields and, for the
  hash over the ciphertext, \<open>hashkey'\<close> and \<open>hashsize'\<close>; the key of the hash is
  passed to the hash with its own size.
\<close>

record StreamCryptor =
  key' :: key_type
  nonce' :: nonce_type
  header' :: data_t
  blocksize' :: nat

record FileCryptor = StreamCryptor +
  hashkey' :: Key
  hashsize' :: nat

text \<open>
  The constructor of \<open>StreamCryptor\<close>: the members are initialised from the arguments, the
  blocksize is checked, and the stored key is made read-only.
\<close>

definition StreamCryptor_new :: "key_type \<Rightarrow> nonce_type \<Rightarrow> nat \<Rightarrow> error + StreamCryptor" where
  "StreamCryptor_new key nonce blocksize =
     (let this = \<lparr>key' = key, nonce' = nonce, header' = [], blocksize' = blocksize\<rparr>
      in if blocksize < 1 then Inl ConfigurationError
         else Inr (this\<lparr>key' := key_type_readonly (key' this)\<rparr>))"

section \<open>FileCryptor::encrypt and FileCryptor::decrypt\<close>

text \<open>
  Both member functions work on the instance, the two streams, the state of the hash and
  the running nonce. \<open>encrypt\<close> reads into the buffer \<open>plaintext\<close>; \<open>decrypt\<close> reads
  into the buffer \<open>ciphertext\<close> and keeps the saved hash, the two stream positions and the
  flag \<open>in_hash\<close>.
\<close>

record 'h frame =
  this :: FileCryptor
  istr :: istream
  ostr :: ostream
  state :: 'h
  running_nonce :: nonce_type

record 'h enc_frame = "'h frame" +
  plaintext :: data_t

record 'h dec_frame = "'h frame" +
  ciphertext :: data_t
  hash_saved :: data_t
  hash_pos :: int
  current_pos :: int
  in_hash :: bool

subsection \<open>encrypt\<close>

text \<open>
  The loop over the full blocks. It returns the frame at the exit of the loop, or at the
  throw together with the error. With a blocksize of 0 every read succeeds and the loop
  need not end.
\<close>

partial_function (option) encrypt_loop ::
  "'h primitives \<Rightarrow> 'h enc_frame \<Rightarrow> (error option \<times> 'h enc_frame) option" where
  "encrypt_loop pr f =
     (let r = istream_read (istr f) (blocksize' (this f));
          f1 = f\<lparr>istr := snd r, plaintext := store (plaintext f) (fst r)\<rparr>
      in if failbit (istr f1) then Some (None, f1)
         else
           let ciphertext = CryptorAEAD_encrypt pr (header' (this f1)) (plaintext f1)
                              (key' (this f1)) (running_nonce f1);
               f2 = f1\<lparr>running_nonce := increment pr (running_nonce f1)\<rparr>;
               f3 = f2\<lparr>ostr := ostream_write (ostr f2) ciphertext\<rparr>
           in if badbit (ostr f3) then Some (Some IOFailure, f3)
              else encrypt_loop pr
                     (f3\<lparr>state := generichash_update pr (state f3) ciphertext\<rparr>))"

declare encrypt_loop.simps [code]

text \<open>The final partial block, if the last read extracted anything.\<close>

definition encrypt_partial :: "'h primitives \<Rightarrow> 'h enc_frame \<Rightarrow> error option \<times> 'h enc_frame" where
  "encrypt_partial pr f =
     (let s = gcount (istr f)
      in if s \<noteq> 0 then
           let f1 = (if s \<noteq> length (plaintext f)
                     then f\<lparr>plaintext := resize (plaintext f) s\<rparr> else f);
               ciphertext = CryptorAEAD_encrypt pr (header' (this f1)) (plaintext f1)
                              (key' (this f1)) (running_nonce f1);
               f2 = f1\<lparr>ostr := ostream_write (ostr f1) ciphertext\<rparr>
           in if badbit (ostr f2) then (Some IOFailure, f2)
              else (None, f2\<lparr>state := generichash_update pr (state f2) ciphertext\<rparr>)
         else (None, f))"

text \<open>The hash is finished and written to the end of the stream.\<close>

definition encrypt_hash :: "'h primitives \<Rightarrow> 'h enc_frame \<Rightarrow> error option \<times> 'h enc_frame" where
  "encrypt_hash pr f =
     (let hash = generichash_final pr (state f) (hashsize' (this f));
          f1 = f\<lparr>ostr := ostream_write (ostr f) hash\<rparr>
      in if badbit (ostr f1) then (Some IOFailure, f1) else (None, f1))"

definition encrypt_start :: "'h primitives \<Rightarrow> FileCryptor \<Rightarrow> istream \<Rightarrow> ostream \<Rightarrow> 'h enc_frame" where
  "encrypt_start pr fc i_s o_s =
     \<lparr>this = fc, istr = i_s, ostr = o_s,
      state = generichash_init pr (keydata (hashkey' fc)) (hashsize' fc),
      running_nonce = nonce' fc,
      plaintext = replicate (blocksize' fc) 0\<rparr>"

definition encrypt ::
  "'h primitives \<Rightarrow> FileCryptor \<Rightarrow> istream \<Rightarrow> ostream \<Rightarrow> (error option \<times> 'h enc_frame) option" where
  "encrypt pr fc i_s o_s =
     (case encrypt_loop pr (encrypt_start pr fc i_s o_s) of
        None \<Rightarrow> None
      | Some (Some e, f) \<Rightarrow> Some (Some e, f)
      | Some (None, f) \<Rightarrow>
          (case encrypt_partial pr f of
             (Some e, f1) \<Rightarrow> Some (Some e, f1)
           | (None, f1) \<Rightarrow> Some (encrypt_hash pr f1)))"

subsection \<open>decrypt\<close>

text \<open>
  Before the loop: the hash block at the end of the file is fetched, its position is kept
  in \<open>hash_pos\<close>, and the stream goes back to the beginning. The buffer \<open>ciphertext\<close> has
  the size of a full chunk, \<open>MACSIZE + blocksize_\<close>, here the sum of the natural numbers
  (see \<open>streamsize_max\<close>).
\<close>

definition decrypt_start ::
  "'h primitives \<Rightarrow> FileCryptor \<Rightarrow> istream \<Rightarrow> ostream \<Rightarrow> error option \<times> 'h dec_frame" where
  "decrypt_start pr fc i_s o_s =
     (let f = \<lparr>this = fc, istr = i_s, ostr = o_s,
               state = generichash_init pr (keydata (hashkey' fc)) (hashsize' fc),
               running_nonce = nonce' fc,
               ciphertext = replicate (MACSIZE pr + blocksize' fc) 0,
               hash_saved = replicate (hashsize' fc) 0,
               hash_pos = 0, current_pos = 0, in_hash = False\<rparr>;
          f1 = f\<lparr>istr := seekg_end (istr f) (- int (hashsize' fc))\<rparr>
      in if failbit (istr f1) then (Some IOFailure, f1)
         else
           let f2 = f1\<lparr>hash_pos := tellg (istr f1)\<rparr>;
               r = istream_read (istr f2) (length (hash_saved f2));
               f3 = f2\<lparr>istr := snd r, hash_saved := store (hash_saved f2) (fst r)\<rparr>
           in if failbit (istr f3) \<and> gcount (istr f3) \<noteq> 0 \<and> gcount (istr f3) \<noteq> hashsize' fc
              then (Some IOFailure, f3)
              else
                let f4 = f3\<lparr>istr := seekg_beg (istr f3) 0\<rparr>
                in (None, f4\<lparr>current_pos := tellg (istr f4), in_hash := False\<rparr>))"

text \<open>
  Dropping what a read took from the hash block: the buffer shrinks by the distance of the
  read position past \<open>hash_pos\<close>. The position before the read was not past \<open>hash_pos\<close>,
  so the distance is at most the size of the buffer.
\<close>

definition drop_excess :: "'h dec_frame \<Rightarrow> data_t" where
  "drop_excess f =
     resize (ciphertext f)
       (nat (int (length (ciphertext f)) - (current_pos f - hash_pos f)))"

text \<open>
  The loop over the chunks of \<open>MACSIZE + blocksize_\<close> bytes. The read of the loop
  condition is made before \<open>in_hash\<close> is looked at.
\<close>

partial_function (option) decrypt_loop ::
  "'h primitives \<Rightarrow> 'h dec_frame \<Rightarrow> (error option \<times> 'h dec_frame) option" where
  "decrypt_loop pr f =
     (let r = istream_read (istr f) (MACSIZE pr + blocksize' (this f));
          f1 = f\<lparr>istr := snd r, ciphertext := store (ciphertext f) (fst r)\<rparr>
      in if failbit (istr f1) \<or> in_hash f1 then Some (None, f1)
         else
           let f2 = f1\<lparr>current_pos := tellg (istr f1)\<rparr>;
               f3 = (if current_pos f2 > hash_pos f2
                     then f2\<lparr>ciphertext := drop_excess f2, in_hash := True\<rparr> else f2)
           in case CryptorAEAD_decrypt pr (header' (this f3)) (ciphertext f3)
                     (key' (this f3)) (running_nonce f3) of
                Inl e \<Rightarrow> Some (Some e, f3)
              | Inr plain \<Rightarrow>
                  let f4 = f3\<lparr>running_nonce := increment pr (running_nonce f3)\<rparr>;
                      f5 = f4\<lparr>ostr := ostream_write (ostr f4) plain\<rparr>
                  in if badbit (ostr f5) then Some (Some IOFailure, f5)
                     else decrypt_loop pr
                            (f5\<lparr>state := generichash_update pr (state f5) (ciphertext f5)\<rparr>))"

declare decrypt_loop.simps [code]

text \<open>
  After a loop that did not reach the hash block: the bytes of the final short read,
  without what they took from the hash block.
\<close>

definition trim_partial :: "'h dec_frame \<Rightarrow> 'h dec_frame" where
  "trim_partial f =
     (let s = gcount (istr f);
          f1 = (if s \<noteq> length (ciphertext f)
                then f\<lparr>ciphertext := resize (ciphertext f) s\<rparr> else f);
          f2 = f1\<lparr>current_pos := tellg (istr f1)\<rparr>
      in if current_pos f2 > hash_pos f2 then f2\<lparr>ciphertext := drop_excess f2\<rparr>
         else if current_pos f2 = - 1 then
           (if length (ciphertext f2) > hashsize' (this f2)
            then f2\<lparr>ciphertext :=
                      resize (ciphertext f2) (length (ciphertext f2) - hashsize' (this f2))\<rparr>
            else f2\<lparr>ciphertext := []\<rparr>)
         else f2)"

definition decrypt_partial :: "'h primitives \<Rightarrow> 'h dec_frame \<Rightarrow> error option \<times> 'h dec_frame" where
  "decrypt_partial pr f =
     (if \<not> in_hash f then
        if gcount (istr f) \<noteq> 0 then
          let f3 = trim_partial f
          in if ciphertext f3 \<noteq> [] then
               (case CryptorAEAD_decrypt pr (header' (this f3)) (ciphertext f3)
                       (key' (this f3)) (running_nonce f3) of
                  Inl e \<Rightarrow> (Some e, f3)
                | Inr plain \<Rightarrow>
                    let f4 = f3\<lparr>ostr := ostream_write (ostr f3) plain\<rparr>
                    in if badbit (ostr f4) then (Some IOFailure, f4)
                       else (None, f4\<lparr>state := generichash_update pr (state f4) (ciphertext f4)\<rparr>))
             else (None, f3)
        else (None, f)
      else (None, f))"

text \<open>The hash is finished and compared with the saved one.\<close>

definition decrypt_hash :: "'h primitives \<Rightarrow> 'h dec_frame \<Rightarrow> error option \<times> 'h dec_frame" where
  "decrypt_hash pr f =
     (let hash = generichash_final pr (state f) (hashsize' (this f))
      in if hash \<noteq> hash_saved f then (Some IntegrityFailure, f) else (None, f))"

definition decrypt ::
  "'h primitives \<Rightarrow> FileCryptor \<Rightarrow> istream \<Rightarrow> ostream \<Rightarrow> (error option \<times> 'h dec_frame) option" where
  "decrypt pr fc i_s o_s =
     (case decrypt_start pr fc i_s o_s of
        (Some e, f) \<Rightarrow> Some (Some e, f)
      | (None, f) \<Rightarrow>
          (case decrypt_loop pr f of
             None \<Rightarrow> None
           | Some (Some e, f1) \<Rightarrow> Some (Some e, f1)
           | Some (None, f1) \<Rightarrow>
               (case decrypt_partial pr f1 of
                  (Some e, f2) \<Rightarrow> Some (Some e, f2)
                | (None, f2) \<Rightarrow> Some (decrypt_hash pr f2))))"

section \<open>Expected results\<close>

text \<open>
  The words of the specification, for comparison with the code. A stream is cut into
  blocks of \<open>n\<close> bytes, the last one possibly shorter; block \<open>i\<close> starts at offset
  \<open>i * n\<close>.
\<close>

definition block :: "nat \<Rightarrow> data_t \<Rightarrow> nat \<Rightarrow> data_t" where
  "block n xs i = take n (drop (i * n) xs)"

definition blocks :: "nat \<Rightarrow> data_t \<Rightarrow> data_t list" where
  "blocks n xs = map (block n xs) [0..<(length xs + n - 1) div n]"

text \<open>The running nonce of chunk \<open>i\<close>: the base nonce incremented \<open>i\<close> times.\<close>

definition nonce_at :: "'h primitives \<Rightarrow> FileCryptor \<Rightarrow> nat \<Rightarrow> nonce_type" where
  "nonce_at pr fc i = (increment pr ^^ i) (nonce' fc)"

text \<open>
  Chunk \<open>i\<close> of the ciphertext stream of a plaintext, the list of all chunks, the digest
  over a list of chunks, and the whole stream: the chunks followed by the digest trailer.
\<close>

definition chunk :: "'h primitives \<Rightarrow> FileCryptor \<Rightarrow> data_t \<Rightarrow> nat \<Rightarrow> data_t" where
  "chunk pr fc P i =
     CryptorAEAD_encrypt pr (header' fc) (block (blocksize' fc) P i) (key' fc) (nonce_at pr fc i)"

definition chunks :: "'h primitives \<Rightarrow> FileCryptor \<Rightarrow> data_t \<Rightarrow> data_t list" where
  "chunks pr fc P = map (chunk pr fc P) [0..<length (blocks (blocksize' fc) P)]"

definition absorbed :: "'h primitives \<Rightarrow> FileCryptor \<Rightarrow> data_t list \<Rightarrow> 'h" where
  "absorbed pr fc cs =
     foldl (generichash_update pr)
       (generichash_init pr (keydata (hashkey' fc)) (hashsize' fc)) cs"

definition digest :: "'h primitives \<Rightarrow> FileCryptor \<Rightarrow> data_t list \<Rightarrow> data_t" where
  "digest pr fc cs = generichash_final pr (absorbed pr fc cs) (hashsize' fc)"

definition stream :: "'h primitives \<Rightarrow> FileCryptor \<Rightarrow> data_t \<Rightarrow> data_t" where
  "stream pr fc P = concat (chunks pr fc P) @ digest pr fc (chunks pr fc P)"

text \<open>
  The frame of \<open>encrypt\<close> at the head of iteration \<open>i\<close> of its loop, for a plaintext
  \<open>P\<close> read from the start and a sink \<open>o_s\<close>: \<open>i\<close> full blocks have been read,
  sealed and written.
\<close>

definition enc_at :: "'h primitives \<Rightarrow> FileCryptor \<Rightarrow> data_t \<Rightarrow> ostream \<Rightarrow> nat \<Rightarrow> 'h enc_frame" where
  "enc_at pr fc P o_s i =
     \<lparr>this = fc,
      istr = \<lparr>content = P, pos = i * blocksize' fc, eofbit = False, failbit = False,
              gcount = (if i = 0 then 0 else blocksize' fc)\<rparr>,
      ostr = o_s\<lparr>written := written o_s @ concat (map (chunk pr fc P) [0..<i]),
                 room := room o_s - i * (MACSIZE pr + blocksize' fc)\<rparr>,
      state = absorbed pr fc (map (chunk pr fc P) [0..<i]),
      running_nonce = nonce_at pr fc i,
      plaintext = (if i = 0 then replicate (blocksize' fc) 0 else block (blocksize' fc) P (i - 1))\<rparr>"

text \<open>
  For \<open>decrypt\<close> on an input \<open>S\<close>: the size of a full chunk, the number of full chunks
  and the length of the tail that lie before the hash block, and the number of pieces the
  bytes before the hash block are cut into.
\<close>

abbreviation chunksize :: "'h primitives \<Rightarrow> FileCryptor \<Rightarrow> nat" where
  "chunksize pr fc \<equiv> MACSIZE pr + blocksize' fc"

abbreviation n_full :: "'h primitives \<Rightarrow> FileCryptor \<Rightarrow> data_t \<Rightarrow> nat" where
  "n_full pr fc S \<equiv> (length S - hashsize' fc) div chunksize pr fc"

abbreviation tail_len :: "'h primitives \<Rightarrow> FileCryptor \<Rightarrow> data_t \<Rightarrow> nat" where
  "tail_len pr fc S \<equiv> (length S - hashsize' fc) mod chunksize pr fc"

abbreviation n_pieces :: "'h primitives \<Rightarrow> FileCryptor \<Rightarrow> data_t \<Rightarrow> nat" where
  "n_pieces pr fc S \<equiv> length (blocks (chunksize pr fc) (take (length S - hashsize' fc) S))"

text \<open>
  Piece \<open>i\<close> of the bytes before the hash block, its plaintext (empty when the piece
  does not open), and whether it opens under the running nonce of chunk \<open>i\<close>.
\<close>

definition dec_piece :: "'h primitives \<Rightarrow> FileCryptor \<Rightarrow> data_t \<Rightarrow> nat \<Rightarrow> data_t" where
  "dec_piece pr fc S i =
     block (MACSIZE pr + blocksize' fc) (take (length S - hashsize' fc) S) i"

definition dec_plain :: "'h primitives \<Rightarrow> FileCryptor \<Rightarrow> data_t \<Rightarrow> nat \<Rightarrow> data_t" where
  "dec_plain pr fc S i =
     (case CryptorAEAD_decrypt pr (header' fc) (dec_piece pr fc S i) (key' fc) (nonce_at pr fc i) of
        Inl e \<Rightarrow> []
      | Inr p \<Rightarrow> p)"

definition dec_opens :: "'h primitives \<Rightarrow> FileCryptor \<Rightarrow> data_t \<Rightarrow> nat \<Rightarrow> bool" where
  "dec_opens pr fc S i =
     (case CryptorAEAD_decrypt pr (header' fc) (dec_piece pr fc S i) (key' fc) (nonce_at pr fc i) of
        Inl e \<Rightarrow> False
      | Inr p \<Rightarrow> True)"

text \<open>
  The number of pieces at the front of the input that open, each under its own running
  nonce: the index of the first piece that does not open, or the number of all pieces.
\<close>

definition n_opened :: "'h primitives \<Rightarrow> FileCryptor \<Rightarrow> data_t \<Rightarrow> nat" where
  "n_opened pr fc S = length (takeWhile (dec_opens pr fc S) [0..<n_pieces pr fc S])"

text \<open>
  The frame of \<open>decrypt\<close> at the head of iteration \<open>i\<close> of its loop, after \<open>i\<close> full
  chunks have been read, opened and written; and the frame with which the loop ends at a
  short read.
\<close>

definition dec_at :: "'h primitives \<Rightarrow> FileCryptor \<Rightarrow> data_t \<Rightarrow> ostream \<Rightarrow> nat \<Rightarrow> 'h dec_frame" where
  "dec_at pr fc S o_s i =
     \<lparr>this = fc,
      istr = \<lparr>content = S, pos = i * (MACSIZE pr + blocksize' fc), eofbit = False,
              failbit = False,
              gcount = (if i = 0 then hashsize' fc else MACSIZE pr + blocksize' fc)\<rparr>,
      ostr = o_s\<lparr>written := written o_s @ concat (map (dec_plain pr fc S) [0..<i]),
                 room := room o_s - length (concat (map (dec_plain pr fc S) [0..<i]))\<rparr>,
      state = absorbed pr fc (map (dec_piece pr fc S) [0..<i]),
      running_nonce = nonce_at pr fc i,
      ciphertext = (if i = 0 then replicate (MACSIZE pr + blocksize' fc) 0
                    else dec_piece pr fc S (i - 1)),
      hash_saved = drop (length S - hashsize' fc) S,
      hash_pos = int (length S - hashsize' fc),
      current_pos = int (i * (MACSIZE pr + blocksize' fc)),
      in_hash = False\<rparr>"

definition dec_short :: "'h primitives \<Rightarrow> FileCryptor \<Rightarrow> data_t \<Rightarrow> ostream \<Rightarrow> 'h dec_frame" where
  "dec_short pr fc S o_s =
     (dec_at pr fc S o_s (n_full pr fc S))
       \<lparr>istr := \<lparr>content = S, pos = length S, eofbit = True, failbit = True,
                  gcount = tail_len pr fc S + hashsize' fc\<rparr>,
        ciphertext := store (ciphertext (dec_at pr fc S o_s (n_full pr fc S)))
                        (drop (n_full pr fc S * chunksize pr fc) S)\<rparr>"

text \<open>
  The case in which the final short read of \<open>decrypt\<close> took bytes of the hash block
  only: the loop ended at a short read without having met the hash block, the read
  extracted something, and nothing of it is left after the trimming.
\<close>

definition final_read_only_hash ::
  "'h primitives \<Rightarrow> FileCryptor \<Rightarrow> istream \<Rightarrow> ostream \<Rightarrow> bool" where
  "final_read_only_hash pr fc i_s o_s =
     (case decrypt_start pr fc i_s o_s of
        (Some e, f) \<Rightarrow> False
      | (None, f) \<Rightarrow>
          (case decrypt_loop pr f of
             None \<Rightarrow> False
           | Some (Some e, f1) \<Rightarrow> False
           | Some (None, f1) \<Rightarrow>
               \<not> in_hash f1 \<and> gcount (istr f1) \<noteq> 0 \<and> ciphertext (trim_partial f1) = []))"

text \<open>
  The stream of a plaintext without its last chunk, the digest trailer kept as it was.
\<close>

definition truncated :: "'h primitives \<Rightarrow> FileCryptor \<Rightarrow> data_t \<Rightarrow> data_t" where
  "truncated pr fc P = concat (butlast (chunks pr fc P)) @ digest pr fc (chunks pr fc P)"

section \<open>Sample primitives and instances\<close>

text \<open>
  A small instance of the primitives, for running the model on concrete inputs: a tag of
  16 equal bytes that depends on header, plaintext, key and nonce, a ciphertext that adds a
  pad byte to every plaintext byte, a little-endian counter, and a hash that keeps what it
  absorbed and outputs a checksum.
\<close>

definition toy_pad :: "data_t \<Rightarrow> nonce_type \<Rightarrow> byte" where
  "toy_pad k n = sum_list k + sum_list n"

definition toy_tag :: "data_t \<Rightarrow> data_t \<Rightarrow> data_t \<Rightarrow> nonce_type \<Rightarrow> data_t" where
  "toy_tag h p k n = replicate 16 (sum_list h + sum_list p + toy_pad k n + 1)"

definition toy_seal :: "data_t \<Rightarrow> data_t \<Rightarrow> data_t \<Rightarrow> nonce_type \<Rightarrow> data_t" where
  "toy_seal h p k n = toy_tag h p k n @ map (\<lambda>b. b + toy_pad k n) p"

definition toy_open :: "data_t \<Rightarrow> data_t \<Rightarrow> data_t \<Rightarrow> nonce_type \<Rightarrow> data_t option" where
  "toy_open h c k n =
     (if length c < 16 then None
      else let p = map (\<lambda>b. b - toy_pad k n) (drop 16 c)
           in if take 16 c = toy_tag h p k n then Some p else None)"

fun toy_increment :: "nonce_type \<Rightarrow> nonce_type" where
  "toy_increment [] = []"
| "toy_increment (b # bs) = (if b = 255 then 0 # toy_increment bs else (b + 1) # bs)"

definition toy :: "data_t primitives" where
  "toy = \<lparr>MACSIZE = 16, aead_seal = toy_seal, aead_open = toy_open,
          increment = toy_increment,
          generichash_init = (\<lambda>k n. k),
          generichash_update = (\<lambda>st xs. st @ xs),
          generichash_final = (\<lambda>st n. replicate n (sum_list st + of_nat (length st)))\<rparr>"

text \<open>A key of the AEAD, and a key for the hash.\<close>

lift_definition sample_key :: key_type is "\<lparr>keydata = replicate 32 7, protection = ReadWrite\<rparr>"
  by (simp add: KEYSIZE_def)

definition short_key :: Key where
  "short_key = \<lparr>keydata = [1, 2, 3], protection = ReadWrite\<rparr>"

definition sample_nonce :: nonce_type where
  "sample_nonce = [254, 255, 0, 0, 0, 0, 0, 0]"

definition sample_cryptor :: "nat \<Rightarrow> nat \<Rightarrow> FileCryptor" where
  "sample_cryptor blocksize hashsize =
     \<lparr>key' = key_type_readonly sample_key, nonce' = sample_nonce, header' = [],
      blocksize' = blocksize, hashkey' = readonly short_key, hashsize' = hashsize\<rparr>"

definition sink :: "nat \<Rightarrow> ostream" where
  "sink n = \<lparr>written = [], room = n, badbit = False\<rparr>"

text \<open>The stream of the five bytes \<open>ABCDE\<close>: chunks of 20 and 17 bytes and a hash of 16.\<close>

definition sample_stream :: data_t where
  "sample_stream = stream toy (sample_cryptor 4 16) [65, 66, 67, 68, 69]"

section \<open>The primitives of the sample\<close>

lemma toy_ok: "primitives_ok toy"
  by (auto simp: primitives_ok_def toy_def toy_seal_def toy_open_def toy_tag_def Let_def o_def
      split: if_splits)

section \<open>Blocks of a stream\<close>

lemma length_block_full: "Suc i * n \<le> length xs \<Longrightarrow> length (block n xs i) = n"
  by (simp add: block_def)

lemma block_last: "0 < n \<Longrightarrow> block n xs (length xs div n) = drop (length xs div n * n) xs"
proof -
  assume "0 < n"
  then have "length xs - length xs div n * n < n"
    by (simp add: minus_div_mult_eq_mod)
  then show ?thesis by (simp add: block_def)
qed

lemma length_block_last: "0 < n \<Longrightarrow> length (block n xs (length xs div n)) = length xs mod n"
  by (simp add: block_last minus_div_mult_eq_mod)

lemma ceil_div:
  assumes n: "0 < (n::nat)"
  shows "(m + n - 1) div n = m div n + (if m mod n = 0 then 0 else 1)"
proof -
  define r where "r = m mod n"
  define q where "q = m div n"
  have m: "m = r + q * n" by (simp add: q_def r_def)
  have r: "r < n" using n by (simp add: r_def)
  show ?thesis
  proof (cases "r = 0")
    case True
    have "m + n - 1 = (n - 1) + q * n"
      using n m True by arith
    then have "(m + n - 1) div n = ((n - 1) + q * n) div n" by simp
    also have "\<dots> = (n - 1) div n + q" using n by (subst div_mult_self1) simp_all
    also have "\<dots> = q" using n by simp
    finally show ?thesis using True by (simp add: q_def r_def)
  next
    case False
    have "m + n - 1 = (r - 1) + Suc q * n"
      using False m by simp
    then have "(m + n - 1) div n = ((r - 1) + Suc q * n) div n" by simp
    also have "\<dots> = (r - 1) div n + Suc q" using n by (subst div_mult_self1) simp_all
    also have "\<dots> = Suc q" using r by simp
    finally show ?thesis using False by (simp add: q_def r_def)
  qed
qed

lemma length_blocks:
  "0 < n \<Longrightarrow> length (blocks n xs) = length xs div n + (if length xs mod n = 0 then 0 else 1)"
  using ceil_div [of n "length xs"] by (simp add: blocks_def)

lemma concat_blocks_upto:
  "i * n \<le> length xs \<Longrightarrow> concat (map (block n xs) [0..<i]) = take (i * n) xs"
proof (induction i)
  case 0
  then show ?case by simp
next
  case (Suc i)
  then have IH: "concat (map (block n xs) [0..<i]) = take (i * n) xs" by simp
  have "concat (map (block n xs) [0..<Suc i]) = take (i * n) xs @ block n xs i"
    by (simp add: IH)
  also have "\<dots> = take (i * n + n) xs"
    by (simp add: block_def take_add)
  finally show ?case by (simp add: add.commute)
qed

lemma blocks_split:
  "0 < n \<Longrightarrow> blocks n xs = map (block n xs) [0..<length xs div n] @
     (if length xs mod n = 0 then [] else [block n xs (length xs div n)])"
  using length_blocks [of n xs] by (simp add: blocks_def)

lemma concat_blocks: "0 < n \<Longrightarrow> concat (blocks n xs) = xs"
proof -
  assume n: "0 < n"
  let ?q = "length xs div n"
  have full: "concat (map (block n xs) [0..<?q]) = take (?q * n) xs"
    by (rule concat_blocks_upto) simp
  show ?thesis
  proof (cases "length xs mod n = 0")
    case True
    then have "?q * n = length xs" by (metis div_mult_mod_eq add.right_neutral)
    with full True n show ?thesis by (simp add: blocks_split)
  next
    case False
    with full n show ?thesis by (simp add: blocks_split block_last)
  qed
qed

section \<open>Termination and frame of the loops\<close>

lemma encrypt_loop_this:
  "encrypt_loop pr f = Some y \<Longrightarrow> this (snd y) = this f"
proof (induct rule: encrypt_loop.raw_induct [rotated 1, consumes 1, case_names step])
  case (step loop pr f y)
  show ?case using step(2)
    by (auto simp: Let_def split: if_splits dest!: step(1))
qed

lemma decrypt_loop_this:
  "decrypt_loop pr f = Some y \<Longrightarrow> this (snd y) = this f"
proof (induct rule: decrypt_loop.raw_induct [rotated 1, consumes 1, case_names step])
  case (step loop pr f y)
  show ?case using step(2)
    by (auto simp: Let_def split: if_splits sum.splits dest!: step(1))
qed

lemma encrypt_loop_returns:
  assumes "0 < blocksize' (this f)"
  shows "\<exists>r. encrypt_loop pr f = Some r"
  using assms
proof (induction "length (content (istr f)) - pos (istr f)" arbitrary: f rule: less_induct)
  case less
  let ?n = "blocksize' (this f)"
  let ?r = "istream_read (istr f) ?n"
  show ?case
  proof (cases "failbit (snd ?r)")
    case True
    then show ?thesis by (subst encrypt_loop.simps) (simp add: Let_def)
  next
    case False
    then have good: "\<not> eofbit (istr f)" "\<not> failbit (istr f)"
      by (auto simp: istream_read_def Let_def split: if_splits)
    from False good have len: "length (take ?n (drop (pos (istr f)) (content (istr f)))) = ?n"
      by (auto simp: istream_read_def Let_def split: if_splits)
    have snd_r: "content (snd ?r) = content (istr f)" "pos (snd ?r) = pos (istr f) + ?n"
      using good len by (simp_all add: istream_read_def Let_def)
    from len less.prems have lt: "pos (istr f) < length (content (istr f))" by auto
    have dec: "length (content (snd ?r)) - pos (snd ?r) < length (content (istr f)) - pos (istr f)"
      using lt less.prems unfolding snd_r by arith
    show ?thesis
      apply (subst encrypt_loop.simps)
      apply (simp add: Let_def False del: split_paired_Ex)
      apply (intro impI)
      apply (rule less.hyps; use less.prems dec in simp)
      done
  qed
qed

lemma decrypt_loop_returns:
  assumes "0 < MACSIZE pr + blocksize' (this f)"
  shows "\<exists>r. decrypt_loop pr f = Some r"
  using assms
proof (induction "length (content (istr f)) - pos (istr f)" arbitrary: f rule: less_induct)
  case less
  let ?n = "MACSIZE pr + blocksize' (this f)"
  let ?r = "istream_read (istr f) ?n"
  show ?case
  proof (cases "failbit (snd ?r)")
    case True
    then show ?thesis by (subst decrypt_loop.simps) (simp add: Let_def)
  next
    case False
    then have good: "\<not> eofbit (istr f)" "\<not> failbit (istr f)"
      by (auto simp: istream_read_def Let_def split: if_splits)
    from False good have len: "length (take ?n (drop (pos (istr f)) (content (istr f)))) = ?n"
      by (auto simp: istream_read_def Let_def split: if_splits)
    have snd_r: "content (snd ?r) = content (istr f)" "pos (snd ?r) = pos (istr f) + ?n"
      using good len by (simp_all add: istream_read_def Let_def)
    from len less.prems have lt: "pos (istr f) < length (content (istr f))" by auto
    have dec: "length (content (snd ?r)) - pos (snd ?r) < length (content (istr f)) - pos (istr f)"
      using lt less.prems unfolding snd_r by arith
    show ?thesis
      apply (subst decrypt_loop.simps)
      apply (simp add: Let_def False del: split_paired_Ex split: sum.split)
      apply (intro impI allI conjI)
      apply (rule less.hyps; use less.prems dec in simp)+
      done
  qed
qed

lemma encrypt_this:
  assumes "0 < blocksize' fc"
  shows "\<exists>e f. encrypt pr fc i_s o_s = Some (e, f) \<and> this f = fc"
proof -
  let ?f0 = "encrypt_start pr fc i_s o_s"
  have f0: "this ?f0 = fc" by (simp add: encrypt_start_def)
  with assms obtain e f where loop: "encrypt_loop pr ?f0 = Some (e, f)"
    using encrypt_loop_returns [of ?f0 pr] by auto
  from encrypt_loop_this [OF loop] f0 have f: "this f = fc" by simp
  show ?thesis
    using f by (auto simp: encrypt_def loop encrypt_partial_def encrypt_hash_def Let_def
        split: option.splits prod.splits)
qed

lemma decrypt_this:
  assumes "0 < blocksize' fc"
  shows "\<exists>e f. decrypt pr fc i_s o_s = Some (e, f) \<and> this f = fc"
proof (cases "decrypt_start pr fc i_s o_s")
  case (Pair e0 f0)
  have f0: "this f0 = fc"
    using Pair by (auto simp: decrypt_start_def Let_def split: if_splits)
  show ?thesis
  proof (cases e0)
    case (Some e)
    with Pair f0 show ?thesis by (simp add: decrypt_def)
  next
    case None
    from assms f0 obtain e f where loop: "decrypt_loop pr f0 = Some (e, f)"
      using decrypt_loop_returns [of pr f0] by auto
    from decrypt_loop_this [OF loop] f0 have f: "this f = fc" by simp
    have trim: "this (trim_partial f) = this f"
      by (simp add: trim_partial_def Let_def)
    show ?thesis
      using f trim
      by (auto simp: decrypt_def Pair None loop decrypt_partial_def decrypt_hash_def Let_def
          split: option.splits prod.splits sum.splits if_splits)
  qed
qed

section \<open>What encrypt writes\<close>

lemma enc_at_0: "encrypt_start pr fc (istream_of P) o_s = enc_at pr fc P o_s 0"
  by (simp add: encrypt_start_def enc_at_def istream_of_def absorbed_def nonce_at_def)

lemma length_chunk:
  "primitives_ok pr \<Longrightarrow>
   length (chunk pr fc P i) = MACSIZE pr + length (block (blocksize' fc) P i)"
  by (simp add: chunk_def CryptorAEAD_encrypt_def primitives_ok_def)

lemma absorbed_snoc:
  "absorbed pr fc (cs @ [c]) = generichash_update pr (absorbed pr fc cs) c"
  by (simp add: absorbed_def)

lemma length_plaintext_enc_at:
  "i * blocksize' fc \<le> length P \<Longrightarrow> length (plaintext (enc_at pr fc P o_s i)) = blocksize' fc"
  by (cases i) (simp_all add: enc_at_def length_block_full)

lemma store_full: "length got = length buf \<Longrightarrow> store buf got = got"
  by (simp add: store_def)

lemma enc_step:
  assumes ok: "primitives_ok pr"
    and len: "Suc i * blocksize' fc \<le> length P"
    and good: "\<not> badbit o_s"
    and fits: "Suc i * (MACSIZE pr + blocksize' fc) \<le> room o_s"
  shows "encrypt_loop pr (enc_at pr fc P o_s i) = encrypt_loop pr (enc_at pr fc P o_s (Suc i))"
proof -
  let ?bs = "blocksize' fc"
  let ?f = "enc_at pr fc P o_s i"
  have lb: "length (block ?bs P i) = ?bs"
    using len by (rule length_block_full)
  have read: "istream_read (istr ?f) ?bs =
      (block ?bs P i, \<lparr>content = P, pos = Suc i * ?bs, eofbit = False, failbit = False, gcount = ?bs\<rparr>)"
    using lb by (simp add: istream_read_def enc_at_def block_def Let_def add.commute)
  have lp: "length (plaintext ?f) = ?bs"
    using len by (intro length_plaintext_enc_at) simp
  have st: "store (plaintext ?f) (block ?bs P i) = block ?bs P i"
    using lb lp by (simp add: store_full)
  have ct: "CryptorAEAD_encrypt pr (header' fc) (block ?bs P i) (key' fc) (nonce_at pr fc i) = chunk pr fc P i"
    by (simp add: chunk_def)
  have lc: "length (chunk pr fc P i) = MACSIZE pr + ?bs"
    using ok lb by (simp add: length_chunk)
  have room: "length (chunk pr fc P i) \<le> room o_s - i * (MACSIZE pr + ?bs)"
    using fits lc by simp
  have wr: "ostream_write (ostr ?f) (chunk pr fc P i) =
      o_s\<lparr>written := written o_s @ concat (map (chunk pr fc P) [0..<Suc i]),
          room := room o_s - Suc i * (MACSIZE pr + ?bs)\<rparr>"
    using good room lc by (simp add: ostream_write_def enc_at_def)
  have this_f: "this ?f = fc" "running_nonce ?f = nonce_at pr fc i"
    "state ?f = absorbed pr fc (map (chunk pr fc P) [0..<i])"
    by (simp_all add: enc_at_def)
  have nn: "increment pr (nonce_at pr fc i) = nonce_at pr fc (Suc i)"
    by (simp add: nonce_at_def)
  show ?thesis
    apply (subst encrypt_loop.simps)
    apply (simp add: Let_def read st this_f ct wr good nn)
    apply (rule arg_cong [where f = "encrypt_loop pr"])
    apply (simp add: enc_at_def absorbed_snoc)
    done
qed

lemma enc_loop_upto:
  assumes ok: "primitives_ok pr"
    and len: "i * blocksize' fc \<le> length P"
    and good: "\<not> badbit o_s"
    and fits: "i * (MACSIZE pr + blocksize' fc) \<le> room o_s"
  shows "encrypt_loop pr (enc_at pr fc P o_s 0) = encrypt_loop pr (enc_at pr fc P o_s i)"
  using len fits
proof (induction i)
  case 0
  show ?case by simp
next
  case (Suc i)
  then have "encrypt_loop pr (enc_at pr fc P o_s 0) = encrypt_loop pr (enc_at pr fc P o_s i)"
    by simp
  also have "\<dots> = encrypt_loop pr (enc_at pr fc P o_s (Suc i))"
    using ok Suc.prems good by (intro enc_step) simp_all
  finally show ?case .
qed

lemma chunks_split:
  "0 < blocksize' fc \<Longrightarrow>
   chunks pr fc P = map (chunk pr fc P) [0..<length P div blocksize' fc] @
     (if length P mod blocksize' fc = 0 then [] else [chunk pr fc P (length P div blocksize' fc)])"
  by (simp add: chunks_def length_blocks)

lemma length_full_chunks:
  "primitives_ok pr \<Longrightarrow> i * blocksize' fc \<le> length P \<Longrightarrow>
   length (concat (map (chunk pr fc P) [0..<i])) = i * (MACSIZE pr + blocksize' fc)"
proof (induction i)
  case 0
  show ?case by simp
next
  case (Suc i)
  then have "length (chunk pr fc P i) = MACSIZE pr + blocksize' fc"
    by (simp add: length_chunk length_block_full)
  with Suc show ?case by simp
qed

lemma length_digest: "primitives_ok pr \<Longrightarrow> length (digest pr fc cs) = hashsize' fc"
  by (simp add: digest_def primitives_ok_def)

lemma length_stream:
  assumes ok: "primitives_ok pr" and bs: "0 < blocksize' fc"
  shows "length (stream pr fc P) =
     length P div blocksize' fc * (MACSIZE pr + blocksize' fc) +
     (if length P mod blocksize' fc = 0 then 0 else MACSIZE pr + length P mod blocksize' fc) +
     hashsize' fc"
  using ok bs
  by (simp add: stream_def chunks_split length_full_chunks length_digest length_chunk
      length_block_last)

lemma enc_exit:
  assumes bs: "0 < blocksize' fc"
  shows "encrypt_loop pr (enc_at pr fc P o_s (length P div blocksize' fc)) =
     Some (None, (enc_at pr fc P o_s (length P div blocksize' fc))
       \<lparr>istr := \<lparr>content = P, pos = length P, eofbit = True, failbit = True,
                  gcount = length P mod blocksize' fc\<rparr>,
        plaintext := store (plaintext (enc_at pr fc P o_s (length P div blocksize' fc)))
                       (block (blocksize' fc) P (length P div blocksize' fc))\<rparr>)"
proof -
  let ?bs = "blocksize' fc"
  let ?q = "length P div ?bs"
  let ?f = "enc_at pr fc P o_s ?q"
  have lb: "length (block ?bs P ?q) = length P mod ?bs"
    using bs by (rule length_block_last)
  then have short: "length (block ?bs P ?q) < ?bs" using bs by simp
  have pos: "?q * ?bs + length P mod ?bs = length P" by simp
  have read: "istream_read (istr ?f) ?bs =
      (block ?bs P ?q, \<lparr>content = P, pos = length P, eofbit = True, failbit = True,
                         gcount = length P mod ?bs\<rparr>)"
    using short lb pos by (simp add: istream_read_def enc_at_def Let_def block_def [symmetric])
  have tf: "this ?f = fc" by (simp add: enc_at_def)
  show ?thesis
    by (subst encrypt_loop.simps) (simp add: Let_def tf read)
qed

lemma encrypt_result:
  assumes ok: "primitives_ok pr" and bs: "0 < blocksize' fc"
    and good: "\<not> badbit o_s" and fits: "length (stream pr fc P) \<le> room o_s"
  shows "\<exists>f. encrypt pr fc (istream_of P) o_s = Some (None, f) \<and> this f = fc \<and>
           ostr f = o_s\<lparr>written := written o_s @ stream pr fc P,
                         room := room o_s - length (stream pr fc P)\<rparr> \<and>
           state f = absorbed pr fc (chunks pr fc P) \<and>
           running_nonce f = nonce_at pr fc (length P div blocksize' fc)"
proof -
  let ?bs = "blocksize' fc"
  let ?q = "length P div ?bs"
  let ?r = "length P mod ?bs"
  let ?C = "MACSIZE pr + ?bs"
  let ?f = "enc_at pr fc P o_s ?q"
  let ?last = "block ?bs P ?q"
  let ?f1 = "?f\<lparr>istr := \<lparr>content = P, pos = length P, eofbit = True, failbit = True, gcount = ?r\<rparr>,
                 plaintext := store (plaintext ?f) ?last\<rparr>"
  have ls: "length (stream pr fc P) = ?q * ?C + (if ?r = 0 then 0 else MACSIZE pr + ?r) + hashsize' fc"
    using ok bs by (rule length_stream)
  have fits_full: "?q * ?C \<le> room o_s" using fits ls by simp
  have loop: "encrypt_loop pr (encrypt_start pr fc (istream_of P) o_s) = Some (None, ?f1)"
    using enc_loop_upto [OF ok _ good fits_full, of P] enc_exit [OF bs, of pr P o_s]
    by (simp add: enc_at_0)
  have lp: "length (plaintext ?f) = ?bs"
    by (rule length_plaintext_enc_at) simp
  have ll: "length ?last = ?r" using bs by (rule length_block_last)
  have rlt: "?r < ?bs" using bs by simp
  have resized: "resize (store (plaintext ?f) ?last) ?r = ?last"
    using lp ll rlt by (simp add: resize_def store_def)
  have lst: "length (store (plaintext ?f) ?last) = ?bs"
    using lp by (simp add: store_def)
  have fq: "this ?f = fc" "running_nonce ?f = nonce_at pr fc ?q"
    "state ?f = absorbed pr fc (map (chunk pr fc P) [0..<?q])"
    "ostr ?f = o_s\<lparr>written := written o_s @ concat (map (chunk pr fc P) [0..<?q]),
                   room := room o_s - ?q * ?C\<rparr>"
    by (simp_all add: enc_at_def)
  have ct: "CryptorAEAD_encrypt pr (header' fc) ?last (key' fc) (nonce_at pr fc ?q) = chunk pr fc P ?q"
    by (simp add: chunk_def)
  have lc: "length (chunk pr fc P ?q) = MACSIZE pr + ?r"
    using ok ll by (simp add: length_chunk)
  have ld: "length (digest pr fc (chunks pr fc P)) = hashsize' fc"
    using ok by (rule length_digest)
  have lfull: "length (concat (map (chunk pr fc P) [0..<?q])) = ?q * ?C"
    using ok by (intro length_full_chunks) simp_all
  show ?thesis
  proof (cases "?r = 0")
    case True
    then have cs: "chunks pr fc P = map (chunk pr fc P) [0..<?q]"
      using bs by (simp add: chunks_split)
    have part: "encrypt_partial pr ?f1 = (None, ?f1)"
      using True by (simp add: encrypt_partial_def)
    have room: "hashsize' fc \<le> room o_s - ?q * ?C" using fits ls True by simp
    have enc: "encrypt pr fc (istream_of P) o_s = Some (encrypt_hash pr ?f1)"
      by (simp add: encrypt_def loop part)
    show ?thesis
      unfolding enc
      using good room ld lfull
      by (simp add: encrypt_hash_def Let_def fq cs stream_def
          digest_def [symmetric] ostream_write_def)
  next
    case False
    then have cs: "chunks pr fc P = map (chunk pr fc P) [0..<?q] @ [chunk pr fc P ?q]"
      using bs by (simp add: chunks_split)
    have room1: "MACSIZE pr + ?r \<le> room o_s - ?q * ?C" using fits ls False by simp
    have room2: "hashsize' fc \<le> room o_s - ?q * ?C - (MACSIZE pr + ?r)" using fits ls False by simp
    let ?f2 = "?f1\<lparr>plaintext := ?last,
                   ostr := o_s\<lparr>written := written o_s @ concat (chunks pr fc P),
                              room := room o_s - ?q * ?C - (MACSIZE pr + ?r)\<rparr>,
                   state := absorbed pr fc (chunks pr fc P)\<rparr>"
    have part: "encrypt_partial pr ?f1 = (None, ?f2)"
      using False rlt good room1 lc
      by (simp add: encrypt_partial_def Let_def lst resized fq ct ostream_write_def cs absorbed_snoc)
    have enc: "encrypt pr fc (istream_of P) o_s = Some (encrypt_hash pr ?f2)"
      by (simp add: encrypt_def loop part)
    show ?thesis
      unfolding enc
      using good room2 ld lfull lc
      by (simp add: encrypt_hash_def Let_def fq stream_def
          digest_def [symmetric] ostream_write_def cs)
  qed
qed

section \<open>Chunk codec, constructor and frame\<close>

text \<open>
  C4: decrypting one chunk fails with \<open>AuthFailure\<close> whenever the tag does not verify
  against the header, ciphertext, key and nonce; a chunk shorter than a tag never
  verifies; and a plaintext is returned only when the chunk opened, so a failure returns
  no plaintext at all.
\<close>

theorem decrypt_chunk_auth_failure:
  "(aead_open pr header c (keydata (Rep_key_type key)) nonce = None \<longrightarrow>
      CryptorAEAD_decrypt pr header c key nonce = Inl AuthFailure) \<and>
   (primitives_ok pr \<and> length c < MACSIZE pr \<longrightarrow>
      CryptorAEAD_decrypt pr header c key nonce = Inl AuthFailure) \<and>
   (\<forall>p. CryptorAEAD_decrypt pr header c key nonce = Inr p \<longrightarrow>
      aead_open pr header c (keydata (Rep_key_type key)) nonce = Some p)"
  by (auto simp: CryptorAEAD_decrypt_def primitives_ok_def split: option.splits)

theorem decrypt_chunk_auth_failure_witness:
  "aead_open toy [] (replicate 16 1 @ [5]) (keydata (Rep_key_type sample_key)) sample_nonce = None \<and>
   CryptorAEAD_decrypt toy [] (replicate 16 1 @ [5]) sample_key sample_nonce = Inl AuthFailure \<and>
   primitives_ok toy \<and> length [1, 2, 3 :: byte] < MACSIZE toy \<and>
   CryptorAEAD_decrypt toy [] [1, 2, 3] sample_key sample_nonce = Inl AuthFailure"
proof -
  have tampered:
    "aead_open toy [] (replicate 16 1 @ [5]) (keydata (Rep_key_type sample_key)) sample_nonce = None"
    by code_simp
  have short: "length [1, 2, 3 :: byte] < MACSIZE toy"
    by (simp add: toy_def)
  show ?thesis
    using tampered short toy_ok
      decrypt_chunk_auth_failure [of toy "[]" "replicate 16 1 @ [5]" sample_key sample_nonce]
      decrypt_chunk_auth_failure [of toy "[]" "[1, 2, 3]" sample_key sample_nonce]
    by simp
qed

text \<open>
  C7: a blocksize below 1 is a construction-time error. The constructor fails with the
  configuration error, and then there is no instance on which \<open>encrypt\<close> or
  \<open>decrypt\<close> could start; every other blocksize gives the instance with the arguments
  stored and the key read-only. A key of the wrong length never gets as far as an instance
  either: every key that the constructor can be given has \<open>KEYSIZE\<close> bytes, because its
  parameter has the type \<open>CryptorAEAD::key_type\<close>, so the case is excluded before the
  constructor runs and the constructor itself has no check of the size to make.
\<close>

theorem StreamCryptor_new_configuration_error:
  "length (keydata (Rep_key_type key)) = KEYSIZE \<and>
   (blocksize < 1 \<or> length (keydata (Rep_key_type key)) \<noteq> KEYSIZE \<longrightarrow>
      StreamCryptor_new key nonce blocksize = Inl ConfigurationError) \<and>
   (\<not> blocksize < 1 \<longrightarrow>
      StreamCryptor_new key nonce blocksize =
        Inr \<lparr>key' = key_type_readonly key, nonce' = nonce, header' = [],
             blocksize' = blocksize\<rparr>)"
  using Rep_key_type [of key] by (simp add: StreamCryptor_new_def)

theorem StreamCryptor_new_configuration_error_witness:
  "(0::nat) < 1 \<and>
   StreamCryptor_new sample_key sample_nonce 0 = Inl ConfigurationError \<and>
   \<not> (4::nat) < 1 \<and>
   StreamCryptor_new sample_key sample_nonce 4 =
     Inr \<lparr>key' = key_type_readonly sample_key, nonce' = sample_nonce, header' = [],
          blocksize' = 4\<rparr> \<and>
   length (keydata (Rep_key_type sample_key)) = KEYSIZE"
  using StreamCryptor_new_configuration_error [of sample_key 0 sample_nonce]
    StreamCryptor_new_configuration_error [of sample_key 4 sample_nonce]
  by simp

text \<open>
  C8: neither \<open>encrypt\<close> nor \<open>decrypt\<close> changes the instance. Whatever the input and
  the sink, and whether the operation succeeds or throws, it returns, and the key, base
  nonce, blocksize, header and hash parameters are those it started with; so a
  \<open>decrypt\<close> after an \<open>encrypt\<close> starts from the same base nonce.
\<close>

theorem instance_unchanged:
  assumes "0 < blocksize' fc"
  shows "(\<exists>e f. encrypt pr fc i_s o_s = Some (e, f) \<and> this f = fc) \<and>
         (\<exists>e f. decrypt pr fc i_s o_s = Some (e, f) \<and> this f = fc)"
  using encrypt_this [OF assms] decrypt_this [OF assms] by blast

theorem instance_unchanged_witness:
  "0 < blocksize' (sample_cryptor 4 32) \<and>
   (\<exists>e f. encrypt toy (sample_cryptor 4 32) (istream_of [65, 66, 67, 68, 69]) (sink 100) = Some (e, f) \<and>
      this f = sample_cryptor 4 32) \<and>
   (\<exists>e f. decrypt toy (sample_cryptor 4 32) (istream_of [65, 66, 67, 68, 69]) (sink 100) = Some (e, f) \<and>
      this f = sample_cryptor 4 32)"
proof -
  have bs: "0 < blocksize' (sample_cryptor 4 32)"
    by (simp add: sample_cryptor_def)
  show ?thesis
    using bs instance_unchanged [OF bs, of toy "istream_of [65, 66, 67, 68, 69]" "sink 100"]
    by simp
qed

text \<open>
  C10: the constructor, once the blocksize has passed its check, leaves the stored key
  read-only, and it is still read-only after any \<open>encrypt\<close> or \<open>decrypt\<close> of an
  instance holding that key, whatever their outcome.
\<close>

theorem key_stays_readonly:
  assumes "StreamCryptor_new key nonce blocksize = Inr sc"
  shows "protection (Rep_key_type (key' sc)) = ReadOnly \<and>
         (\<exists>e f. encrypt pr \<lparr>key' = key' sc, nonce' = nonce' sc, header' = header' sc,
                    blocksize' = blocksize' sc, hashkey' = hk, hashsize' = hs\<rparr> i_s o_s = Some (e, f) \<and>
            protection (Rep_key_type (key' (this f))) = ReadOnly) \<and>
         (\<exists>e f. decrypt pr \<lparr>key' = key' sc, nonce' = nonce' sc, header' = header' sc,
                    blocksize' = blocksize' sc, hashkey' = hk, hashsize' = hs\<rparr> i_s o_s = Some (e, f) \<and>
            protection (Rep_key_type (key' (this f))) = ReadOnly)"
proof -
  let ?fc = "\<lparr>key' = key' sc, nonce' = nonce' sc, header' = header' sc,
              blocksize' = blocksize' sc, hashkey' = hk, hashsize' = hs\<rparr>"
  from assms have sc: "protection (Rep_key_type (key' sc)) = ReadOnly" "0 < blocksize' sc"
    by (auto simp: StreamCryptor_new_def key_type_readonly.rep_eq readonly_def Let_def
        split: if_splits)
  then have bs: "0 < blocksize' ?fc" by simp
  from encrypt_this [OF bs, of pr i_s o_s] decrypt_this [OF bs, of pr i_s o_s] sc(1)
  show ?thesis by auto
qed

theorem key_stays_readonly_witness:
  "StreamCryptor_new sample_key sample_nonce 4 =
     Inr \<lparr>key' = key_type_readonly sample_key, nonce' = sample_nonce, header' = [],
          blocksize' = 4\<rparr> \<and>
   protection (Rep_key_type (key_type_readonly sample_key)) = ReadOnly \<and>
   (\<exists>e f. encrypt toy \<lparr>key' = key_type_readonly sample_key, nonce' = sample_nonce, header' = [],
              blocksize' = 4, hashkey' = short_key, hashsize' = 32\<rparr>
              (istream_of [65, 66, 67, 68, 69]) (sink 100) = Some (e, f) \<and>
      protection (Rep_key_type (key' (this f))) = ReadOnly)"
proof -
  have new: "StreamCryptor_new sample_key sample_nonce 4 =
     Inr \<lparr>key' = key_type_readonly sample_key, nonce' = sample_nonce, header' = [],
          blocksize' = 4\<rparr>"
    by (simp add: StreamCryptor_new_def)
  show ?thesis
    using new key_stays_readonly [OF new, of toy short_key 32 "istream_of [65, 66, 67, 68, 69]" "sink 100"]
    by simp
qed

section \<open>Chunking and the nonce sequence of encrypt\<close>

text \<open>
  C2, as the code has it: \<open>encrypt\<close> emits one chunk per block of the plaintext, that is
  \<open>ceil(len(P)/blocksize)\<close> chunks: a chunk of \<open>MACSIZE + blocksize\<close> bytes for every
  full block and, only when \<open>len(P)\<close> is not a multiple of the blocksize, a final chunk
  of \<open>MACSIZE + len(P) mod blocksize\<close> bytes; then the digest of \<open>hashsize\<close> bytes. The
  output is as long as the chunks and the digest together. An empty input gives no chunk.
\<close>

theorem encrypt_chunking:
  assumes "primitives_ok pr" and "0 < blocksize' fc"
    and "\<not> badbit o_s" and "length (stream pr fc P) \<le> room o_s"
  shows "\<exists>f. encrypt pr fc (istream_of P) o_s = Some (None, f) \<and>
           written (ostr f) =
             written o_s @ concat (chunks pr fc P) @ digest pr fc (chunks pr fc P) \<and>
           length (chunks pr fc P) = (length P + blocksize' fc - 1) div blocksize' fc \<and>
           (\<forall>i < length (chunks pr fc P).
              length (chunks pr fc P ! i) =
                MACSIZE pr +
                (if i < length P div blocksize' fc then blocksize' fc
                 else length P mod blocksize' fc)) \<and>
           length (digest pr fc (chunks pr fc P)) = hashsize' fc \<and>
           length (written (ostr f)) =
             length (written o_s) + length P +
             MACSIZE pr * ((length P + blocksize' fc - 1) div blocksize' fc) + hashsize' fc"
proof -
  let ?bs = "blocksize' fc"
  let ?q = "length P div ?bs"
  from encrypt_result [OF assms] obtain f where
    enc: "encrypt pr fc (istream_of P) o_s = Some (None, f)" and
    os: "ostr f = o_s\<lparr>written := written o_s @ stream pr fc P,
                        room := room o_s - length (stream pr fc P)\<rparr>"
    by blast
  have n: "length (chunks pr fc P) = (length P + ?bs - 1) div ?bs"
    by (simp add: chunks_def blocks_def)
  have each: "length (chunks pr fc P ! i) =
      MACSIZE pr + (if i < ?q then ?bs else length P mod ?bs)"
    if "i < length (chunks pr fc P)" for i
  proof -
    from that assms(2) have i: "i < ?q + (if length P mod ?bs = 0 then 0 else 1)"
      by (simp add: chunks_def length_blocks)
    from that have nth: "chunks pr fc P ! i = chunk pr fc P i"
      by (simp add: chunks_def)
    show ?thesis
    proof (cases "i < ?q")
      case True
      then have "Suc i * ?bs \<le> ?q * ?bs" by (intro mult_le_mono1) simp
      then have "Suc i * ?bs \<le> length P" by (rule order_trans) simp
      with True assms(1) show ?thesis
        by (simp add: nth length_chunk length_block_full)
    next
      case False
      with i have "i = ?q" by (simp split: if_splits)
      with assms(1,2) show ?thesis
        unfolding nth by (simp add: length_chunk length_block_last)
    qed
  qed
  have ld: "length (digest pr fc (chunks pr fc P)) = hashsize' fc"
    using assms(1) by (rule length_digest)
  have total: "length (stream pr fc P) =
      length P + MACSIZE pr * ((length P + ?bs - 1) div ?bs) + hashsize' fc"
  proof -
    define q where "q = length P div ?bs"
    define r where "r = length P mod ?bs"
    have ls: "length (stream pr fc P) =
        q * (MACSIZE pr + ?bs) + (if r = 0 then 0 else MACSIZE pr + r) + hashsize' fc"
      unfolding q_def r_def by (rule length_stream [OF assms(1,2)])
    have cd: "(length P + ?bs - 1) div ?bs = q + (if r = 0 then 0 else 1)"
      unfolding q_def r_def by (rule ceil_div [OF assms(2)])
    have lp: "length P = q * ?bs + r"
      unfolding q_def r_def by simp
    show ?thesis
      unfolding ls cd by (simp add: lp algebra_simps)
  qed
  show ?thesis
    using enc os n each ld total by (auto simp: stream_def)
qed

theorem encrypt_chunking_witness:
  "primitives_ok toy \<and> 0 < blocksize' (sample_cryptor 4 32) \<and> \<not> badbit (sink 100) \<and>
   length (stream toy (sample_cryptor 4 32) [65, 66, 67, 68, 69, 70, 71, 72, 73]) \<le> room (sink 100) \<and>
   (\<exists>f. encrypt toy (sample_cryptor 4 32) (istream_of [65, 66, 67, 68, 69, 70, 71, 72, 73]) (sink 100) =
           Some (None, f) \<and>
        length (chunks toy (sample_cryptor 4 32) [65, 66, 67, 68, 69, 70, 71, 72, 73]) = 3 \<and>
        length (written (ostr f)) = 89)"
proof -
  let ?fc = "sample_cryptor 4 32"
  let ?P = "[65, 66, 67, 68, 69, 70, 71, 72, 73] :: data_t"
  have bs: "0 < blocksize' ?fc" by (simp add: sample_cryptor_def)
  have good: "\<not> badbit (sink 100)" by (simp add: sink_def)
  have fits: "length (stream toy ?fc ?P) \<le> room (sink 100)"
    by (simp add: length_stream [OF toy_ok bs]) (simp add: sample_cryptor_def toy_def sink_def)
  show ?thesis
    using toy_ok bs good fits encrypt_chunking [OF toy_ok bs good fits]
    by (auto simp: sample_cryptor_def toy_def sink_def)
qed

text \<open>
  C2, as the claim states it, fails: for an empty input \<open>encrypt\<close> writes the 32 bytes
  of the digest and nothing before them, not a bare tag of \<open>MACSIZE\<close> bytes and the
  digest.
\<close>

theorem encrypt_empty_counterexample:
  "encrypt toy (sample_cryptor 8 32) (istream_of []) (sink 100) =
     Some (None,
       \<lparr>this = sample_cryptor 8 32,
        istr = \<lparr>content = [], pos = 0, eofbit = True, failbit = True, gcount = 0\<rparr>,
        ostr = \<lparr>written = replicate 32 9, room = 68, badbit = False\<rparr>,
        state = [1, 2, 3], running_nonce = sample_nonce, plaintext = replicate 8 0\<rparr>) \<and>
   MACSIZE toy = 16 \<and> hashsize' (sample_cryptor 8 32) = 32"
  by code_simp

text \<open>
  C5: the running nonce of \<open>encrypt\<close> starts as the base nonce; chunk \<open>i\<close> of the
  output, counting from 0, is sealed under the base nonce incremented \<open>i\<close> times; and at
  the end the running nonce has been incremented once per full block and no more, so a
  final partial chunk was sealed under the nonce the loop left and nothing incremented it
  afterwards.
\<close>

theorem encrypt_nonce_sequence:
  assumes "primitives_ok pr" and "0 < blocksize' fc"
    and "\<not> badbit o_s" and "length (stream pr fc P) \<le> room o_s"
  shows "running_nonce (encrypt_start pr fc (istream_of P) o_s) = nonce' fc \<and>
         (\<exists>f. encrypt pr fc (istream_of P) o_s = Some (None, f) \<and>
            written (ostr f) =
              written o_s @
              concat (map (\<lambda>i. CryptorAEAD_encrypt pr (header' fc)
                                  (block (blocksize' fc) P i) (key' fc)
                                  ((increment pr ^^ i) (nonce' fc)))
                        [0..<length (blocks (blocksize' fc) P)]) @
              digest pr fc (chunks pr fc P) \<and>
            running_nonce f = (increment pr ^^ (length P div blocksize' fc)) (nonce' fc))"
proof -
  from encrypt_result [OF assms] obtain f where
    enc: "encrypt pr fc (istream_of P) o_s = Some (None, f)" and
    os: "ostr f = o_s\<lparr>written := written o_s @ stream pr fc P,
                        room := room o_s - length (stream pr fc P)\<rparr>" and
    rn: "running_nonce f = nonce_at pr fc (length P div blocksize' fc)"
    by blast
  have cs: "chunks pr fc P =
      map (\<lambda>i. CryptorAEAD_encrypt pr (header' fc) (block (blocksize' fc) P i) (key' fc)
                 ((increment pr ^^ i) (nonce' fc)))
        [0..<length (blocks (blocksize' fc) P)]"
    by (simp add: chunks_def chunk_def nonce_at_def)
  have start: "running_nonce (encrypt_start pr fc (istream_of P) o_s) = nonce' fc"
    by (simp add: encrypt_start_def)
  have wr: "written (ostr f) = written o_s @ concat (chunks pr fc P) @ digest pr fc (chunks pr fc P)"
    using os by (simp add: stream_def)
  show ?thesis
    using start enc rn wr unfolding cs [symmetric] nonce_at_def by blast
qed

theorem encrypt_nonce_sequence_witness:
  "primitives_ok toy \<and> 0 < blocksize' (sample_cryptor 4 32) \<and> \<not> badbit (sink 100) \<and>
   length (stream toy (sample_cryptor 4 32) [65, 66, 67, 68, 69, 70, 71, 72, 73]) \<le> room (sink 100) \<and>
   (\<exists>f. encrypt toy (sample_cryptor 4 32) (istream_of [65, 66, 67, 68, 69, 70, 71, 72, 73]) (sink 100) =
           Some (None, f) \<and>
        running_nonce f = (increment toy ^^ 2) sample_nonce)"
proof -
  let ?fc = "sample_cryptor 4 32"
  let ?P = "[65, 66, 67, 68, 69, 70, 71, 72, 73] :: data_t"
  have bs: "0 < blocksize' ?fc" by (simp add: sample_cryptor_def)
  have good: "\<not> badbit (sink 100)" by (simp add: sink_def)
  have fits: "length (stream toy ?fc ?P) \<le> room (sink 100)"
    by (simp add: length_stream [OF toy_ok bs]) (simp add: sample_cryptor_def toy_def sink_def)
  have q: "length ?P div blocksize' ?fc = 2" by (simp add: sample_cryptor_def)
  have n: "nonce' ?fc = sample_nonce" by (simp add: sample_cryptor_def)
  show ?thesis
    using toy_ok bs good fits encrypt_nonce_sequence [OF toy_ok bs good fits]
    unfolding q n by blast
qed

section \<open>What decrypt does with an input\<close>

lemma dec_start:
  assumes "hashsize' fc \<le> length S"
  shows "decrypt_start pr fc (istream_of S) o_s = (None, dec_at pr fc S o_s 0)"
proof -
  let ?H = "hashsize' fc"
  have t: "nat (int (length S) - int ?H) = length S - ?H" by simp
  have len: "length (drop (length S - ?H) S) = ?H" using assms by simp
  show ?thesis
    using assms len
    by (simp add: decrypt_start_def dec_at_def istream_of_def seekg_end_def seekg_to_def
        seekg_beg_def tellg_def istream_read_def store_def Let_def t absorbed_def nonce_at_def
        of_nat_diff)
qed

lemma dec_start_short:
  assumes "length S < hashsize' fc"
  shows "fst (decrypt_start pr fc (istream_of S) o_s) = Some IOFailure"
  using assms
  by (simp add: decrypt_start_def istream_of_def seekg_end_def seekg_to_def Let_def)

lemma block_take: "Suc i * n \<le> m \<Longrightarrow> block n (take m xs) i = block n xs i"
proof -
  assume "Suc i * n \<le> m"
  then have "n \<le> m - i * n" by simp
  then show ?thesis by (simp add: block_def drop_take min_def)
qed

lemma dec_piece_full:
  assumes "Suc i * (MACSIZE pr + blocksize' fc) \<le> length S - hashsize' fc"
  shows "dec_piece pr fc S i = block (MACSIZE pr + blocksize' fc) S i"
    and "length (dec_piece pr fc S i) = MACSIZE pr + blocksize' fc"
proof -
  show eq: "dec_piece pr fc S i = block (MACSIZE pr + blocksize' fc) S i"
    using assms by (simp add: dec_piece_def block_take)
  from assms have "Suc i * (MACSIZE pr + blocksize' fc) \<le> length S" by simp
  then show "length (dec_piece pr fc S i) = MACSIZE pr + blocksize' fc"
    unfolding eq by (rule length_block_full)
qed

lemma length_ciphertext_dec_at:
  assumes "i * (MACSIZE pr + blocksize' fc) \<le> length S - hashsize' fc"
  shows "length (ciphertext (dec_at pr fc S o_s i)) = MACSIZE pr + blocksize' fc"
proof (cases i)
  case 0
  then show ?thesis by (simp add: dec_at_def)
next
  case (Suc j)
  with assms show ?thesis by (simp add: dec_at_def dec_piece_full(2))
qed

lemma CryptorAEAD_decrypt_Inl:
  "CryptorAEAD_decrypt pr h c k n = Inl e \<Longrightarrow> e = AuthFailure"
  by (simp add: CryptorAEAD_decrypt_def split: option.splits)

lemma length_opened:
  "primitives_ok pr \<Longrightarrow> CryptorAEAD_decrypt pr h c k n = Inr p \<Longrightarrow>
   length c = MACSIZE pr + length p"
  by (auto simp: CryptorAEAD_decrypt_def primitives_ok_def split: option.splits)

lemma dec_step:
  assumes len: "Suc i * (MACSIZE pr + blocksize' fc) \<le> length S - hashsize' fc"
    and good: "\<not> badbit o_s"
    and fits: "length (concat (map (dec_plain pr fc S) [0..<Suc i])) \<le> room o_s"
  shows "decrypt_loop pr (dec_at pr fc S o_s i) =
     (case CryptorAEAD_decrypt pr (header' fc) (dec_piece pr fc S i) (key' fc) (nonce_at pr fc i) of
        Inl e \<Rightarrow> Some (Some e, (dec_at pr fc S o_s i)
                   \<lparr>istr := istr (dec_at pr fc S o_s (Suc i)),
                    ciphertext := dec_piece pr fc S i,
                    current_pos := int (Suc i * (MACSIZE pr + blocksize' fc))\<rparr>)
      | Inr p \<Rightarrow> decrypt_loop pr (dec_at pr fc S o_s (Suc i)))"
proof -
  let ?C = "MACSIZE pr + blocksize' fc"
  let ?f = "dec_at pr fc S o_s i"
  note pc = dec_piece_full [OF len]
  have tf: "this ?f = fc" "running_nonce ?f = nonce_at pr fc i" "\<not> in_hash ?f"
    "hash_pos ?f = int (length S - hashsize' fc)"
    by (simp_all add: dec_at_def)
  have read: "istream_read (istr ?f) ?C = (dec_piece pr fc S i, istr (dec_at pr fc S o_s (Suc i)))"
    using pc(2) unfolding pc(1)
    by (simp add: istream_read_def dec_at_def block_def Let_def add.commute)
  have lc: "length (ciphertext ?f) = ?C"
    using len by (intro length_ciphertext_dec_at) simp
  have st: "store (ciphertext ?f) (dec_piece pr fc S i) = dec_piece pr fc S i"
    using pc(2) lc by (simp add: store_full)
  have is': "\<not> failbit (istr (dec_at pr fc S o_s (Suc i)))"
    "tellg (istr (dec_at pr fc S o_s (Suc i))) = int (Suc i * ?C)"
    by (simp_all add: dec_at_def tellg_def)
  have nothash: "\<not> length S - hashsize' fc < Suc i * ?C"
    using len by (simp only: not_less)
  have nn: "increment pr (nonce_at pr fc i) = nonce_at pr fc (Suc i)"
    by (simp add: nonce_at_def)
  show ?thesis
  proof (cases "CryptorAEAD_decrypt pr (header' fc) (dec_piece pr fc S i) (key' fc) (nonce_at pr fc i)")
    case (Inl e)
    show ?thesis
      apply (subst decrypt_loop.simps)
      apply (simp add: Let_def tf read st is' nothash Inl del: of_nat_mult of_nat_add of_nat_Suc mult_Suc)
      done
  next
    case (Inr p)
    then have dp: "dec_plain pr fc S i = p" by (simp add: dec_plain_def)
    have room: "length p \<le> room o_s - length (concat (map (dec_plain pr fc S) [0..<i]))"
      using fits dp by simp
    have wr: "ostream_write (ostr ?f) p = ostr (dec_at pr fc S o_s (Suc i))"
      using good room dp by (simp add: ostream_write_def dec_at_def)
    have good': "\<not> badbit (ostr (dec_at pr fc S o_s (Suc i)))"
      using good by (simp add: dec_at_def)
    show ?thesis
      apply (subst decrypt_loop.simps)
      apply (simp add: Let_def tf read st is' nothash Inr wr good' nn del: of_nat_mult of_nat_add of_nat_Suc mult_Suc)
      apply (rule arg_cong [where f = "decrypt_loop pr"])
      apply (simp add: dec_at_def absorbed_snoc)
      done
  qed
qed

lemma concat_blocks_take: "concat (map (block n xs) [0..<i]) = take (i * n) xs"
proof (induction i)
  case 0
  show ?case by simp
next
  case (Suc i)
  have "concat (map (block n xs) [0..<Suc i]) = take (i * n) xs @ block n xs i"
    by (simp add: Suc)
  also have "\<dots> = take (i * n + n) xs"
    by (simp add: block_def take_add)
  finally show ?case by (simp add: add.commute)
qed

lemma length_dec_plain:
  "primitives_ok pr \<Longrightarrow> length (dec_plain pr fc S i) \<le> length (dec_piece pr fc S i)"
  by (auto simp: dec_plain_def split: sum.splits dest: length_opened)

lemma length_dec_plains:
  assumes "primitives_ok pr"
  shows "length (concat (map (dec_plain pr fc S) [0..<i])) \<le> length S"
proof -
  have "length (concat (map (dec_plain pr fc S) [0..<i]))
      \<le> length (concat (map (dec_piece pr fc S) [0..<i]))"
  proof (induction i)
    case 0
    show ?case by simp
  next
    case (Suc i)
    with length_dec_plain [OF assms, of fc S i] show ?case by simp
  qed
  also have "concat (map (dec_piece pr fc S) [0..<i]) =
      take (i * (MACSIZE pr + blocksize' fc)) (take (length S - hashsize' fc) S)"
    unfolding dec_piece_def [abs_def] by (rule concat_blocks_take)
  also have "length \<dots> \<le> length S" by simp
  finally show ?thesis .
qed

lemma dec_loop_upto:
  assumes ok: "primitives_ok pr"
    and len: "i * (MACSIZE pr + blocksize' fc) \<le> length S - hashsize' fc"
    and good: "\<not> badbit o_s" and fits: "length S \<le> room o_s"
    and opens: "\<forall>j<i. \<exists>p. CryptorAEAD_decrypt pr (header' fc) (dec_piece pr fc S j) (key' fc)
                           (nonce_at pr fc j) = Inr p"
  shows "decrypt_loop pr (dec_at pr fc S o_s 0) = decrypt_loop pr (dec_at pr fc S o_s i)"
  using len opens
proof (induction i)
  case 0
  show ?case by simp
next
  case (Suc i)
  then have "decrypt_loop pr (dec_at pr fc S o_s 0) = decrypt_loop pr (dec_at pr fc S o_s i)"
    by simp
  moreover from Suc.prems(2) obtain p where
    "CryptorAEAD_decrypt pr (header' fc) (dec_piece pr fc S i) (key' fc) (nonce_at pr fc i) = Inr p"
    by blast
  moreover have room: "length (concat (map (dec_plain pr fc S) [0..<Suc i])) \<le> room o_s"
    using length_dec_plains [OF ok, of fc S "Suc i"] fits by (rule order_trans)
  ultimately show ?case
    using dec_step [OF Suc.prems(1) good room] by simp
qed

text \<open>The end of the data: \<open>n\<close> full chunks and a tail of \<open>t\<close> bytes before the hash.\<close>

lemma dec_piece_last:
  assumes C: "0 < MACSIZE pr + blocksize' fc" and H: "hashsize' fc \<le> length S"
  shows "dec_piece pr fc S ((length S - hashsize' fc) div (MACSIZE pr + blocksize' fc)) =
           take ((length S - hashsize' fc) mod (MACSIZE pr + blocksize' fc))
             (drop ((length S - hashsize' fc) div (MACSIZE pr + blocksize' fc) *
                    (MACSIZE pr + blocksize' fc)) S)"
    and "length (dec_piece pr fc S ((length S - hashsize' fc) div (MACSIZE pr + blocksize' fc))) =
           (length S - hashsize' fc) mod (MACSIZE pr + blocksize' fc)"
proof -
  let ?C = "MACSIZE pr + blocksize' fc"
  let ?D = "length S - hashsize' fc"
  have lD: "length (take ?D S) = ?D" by simp
  have "dec_piece pr fc S (?D div ?C) = drop (?D div ?C * ?C) (take ?D S)"
    using block_last [OF C, of "take ?D S"] unfolding dec_piece_def lD .
  also have "\<dots> = take (?D - ?D div ?C * ?C) (drop (?D div ?C * ?C) S)"
    by (simp add: drop_take)
  also have "?D - ?D div ?C * ?C = ?D mod ?C"
    by (simp add: minus_div_mult_eq_mod)
  finally show "dec_piece pr fc S (?D div ?C) = take (?D mod ?C) (drop (?D div ?C * ?C) S)" .
  show "length (dec_piece pr fc S (?D div ?C)) = ?D mod ?C"
    using length_block_last [OF C, of "take ?D S"] unfolding dec_piece_def lD .
qed

lemma rest_length:
  assumes "hashsize' fc \<le> length (S :: data_t)"
  shows "length S - (length S - hashsize' fc) div C * C = (length S - hashsize' fc) mod C + hashsize' fc"
proof -
  have "(length S - hashsize' fc) div C * C + (length S - hashsize' fc) mod C = length S - hashsize' fc"
    by simp
  with assms show ?thesis by arith
qed

lemma dec_exit_short:
  assumes C: "0 < MACSIZE pr + blocksize' fc" and H: "hashsize' fc \<le> length S"
    and short: "(length S - hashsize' fc) mod (MACSIZE pr + blocksize' fc) + hashsize' fc
                  < MACSIZE pr + blocksize' fc"
  shows "decrypt_loop pr (dec_at pr fc S o_s ((length S - hashsize' fc) div (MACSIZE pr + blocksize' fc))) =
     Some (None, (dec_at pr fc S o_s ((length S - hashsize' fc) div (MACSIZE pr + blocksize' fc)))
       \<lparr>istr := \<lparr>content = S, pos = length S, eofbit = True, failbit = True,
                  gcount = (length S - hashsize' fc) mod (MACSIZE pr + blocksize' fc) + hashsize' fc\<rparr>,
        ciphertext := store (ciphertext (dec_at pr fc S o_s
                          ((length S - hashsize' fc) div (MACSIZE pr + blocksize' fc))))
                       (drop ((length S - hashsize' fc) div (MACSIZE pr + blocksize' fc) *
                              (MACSIZE pr + blocksize' fc)) S)\<rparr>)"
proof -
  let ?C = "MACSIZE pr + blocksize' fc"
  let ?D = "length S - hashsize' fc"
  let ?n = "?D div ?C"
  let ?f = "dec_at pr fc S o_s ?n"
  have rest: "length S - ?n * ?C = ?D mod ?C + hashsize' fc"
    using H by (rule rest_length)
  have le: "?n * ?C \<le> length S"
    by (rule order_trans [of _ ?D]) simp_all
  have pos: "?n * ?C + (?D mod ?C + hashsize' fc) = length S"
    using rest le by arith
  have tf: "this ?f = fc" by (simp add: dec_at_def)
  have read: "istream_read (istr ?f) ?C =
      (drop (?n * ?C) S, \<lparr>content = S, pos = length S, eofbit = True, failbit = True,
                           gcount = ?D mod ?C + hashsize' fc\<rparr>)"
    using short rest pos by (simp add: istream_read_def dec_at_def Let_def)
  show ?thesis
    by (subst decrypt_loop.simps) (simp add: Let_def tf read)
qed

lemma dec_exit_short':
  assumes "0 < chunksize pr fc" and "hashsize' fc \<le> length S"
    and "tail_len pr fc S + hashsize' fc < chunksize pr fc"
  shows "decrypt_loop pr (dec_at pr fc S o_s (n_full pr fc S)) = Some (None, dec_short pr fc S o_s)"
  unfolding dec_short_def using assms by (rule dec_exit_short)

lemma trim_short:
  assumes C: "0 < chunksize pr fc" and H: "hashsize' fc \<le> length S"
    and short: "tail_len pr fc S + hashsize' fc < chunksize pr fc"
  shows "trim_partial (dec_short pr fc S o_s) =
     (dec_short pr fc S o_s)\<lparr>ciphertext := dec_piece pr fc S (n_full pr fc S), current_pos := - 1\<rparr>"
proof -
  let ?C = "chunksize pr fc"
  let ?n = "n_full pr fc S"
  let ?t = "tail_len pr fc S"
  let ?H = "hashsize' fc"
  let ?got = "drop (?n * ?C) S"
  let ?buf = "ciphertext (dec_at pr fc S o_s ?n)"
  have lbuf: "length ?buf = ?C"
    by (rule length_ciphertext_dec_at) simp
  have lgot: "length ?got = ?t + ?H"
    using H by (simp add: rest_length)
  have lst: "length (store ?buf ?got) = ?C"
    using lbuf by (simp add: store_def)
  have rs: "resize (store ?buf ?got) (?t + ?H) = ?got"
    using lbuf lgot short by (simp add: resize_def store_def)
  have piece: "dec_piece pr fc S ?n = take ?t ?got"
    using C H by (rule dec_piece_last(1))
  have fields: "gcount (istr (dec_short pr fc S o_s)) = ?t + ?H"
    "ciphertext (dec_short pr fc S o_s) = store ?buf ?got"
    "failbit (istr (dec_short pr fc S o_s))"
    "hash_pos (dec_short pr fc S o_s) = int (length S - ?H)"
    "this (dec_short pr fc S o_s) = fc"
    by (simp_all add: dec_short_def dec_at_def)
  have ne: "?t + ?H \<noteq> ?C" using short by simp
  have step: "trim_partial (dec_short pr fc S o_s) =
      (dec_short pr fc S o_s)
        \<lparr>ciphertext := (if ?H < length ?got then resize ?got (length ?got - ?H) else []),
         current_pos := - 1\<rparr>"
    by (simp add: trim_partial_def Let_def fields lst ne rs tellg_def)
  have "(if ?H < length ?got then resize ?got (length ?got - ?H) else []) = dec_piece pr fc S ?n"
    unfolding piece lgot using rest_length [OF H, of "chunksize pr fc"] by (simp add: resize_def)
  with step show ?thesis by simp
qed

lemma dec_exit_hash:
  assumes C: "0 < chunksize pr fc" and H: "hashsize' fc \<le> length S"
    and inhash: "chunksize pr fc \<le> tail_len pr fc S + hashsize' fc"
    and good: "\<not> badbit o_s"
    and fits: "length (concat (map (dec_plain pr fc S) [0..<Suc (n_full pr fc S)])) \<le> room o_s"
  shows "case CryptorAEAD_decrypt pr (header' fc) (dec_piece pr fc S (n_full pr fc S)) (key' fc)
               (nonce_at pr fc (n_full pr fc S)) of
           Inl e \<Rightarrow> (\<exists>f. decrypt_loop pr (dec_at pr fc S o_s (n_full pr fc S)) = Some (Some e, f) \<and>
                      ostr f = ostr (dec_at pr fc S o_s (n_full pr fc S)) \<and>
                      ciphertext f = dec_piece pr fc S (n_full pr fc S) \<and>
                      state f = state (dec_at pr fc S o_s (n_full pr fc S)) \<and>
                      hash_saved f = drop (length S - hashsize' fc) S)
         | Inr p \<Rightarrow> (\<exists>f. decrypt_loop pr (dec_at pr fc S o_s (n_full pr fc S)) = Some (None, f) \<and>
                      in_hash f \<and> this f = fc \<and>
                      ostr f = ostr (dec_at pr fc S o_s (Suc (n_full pr fc S))) \<and>
                      state f = state (dec_at pr fc S o_s (Suc (n_full pr fc S))) \<and>
                      hash_saved f = drop (length S - hashsize' fc) S)"
proof -
  let ?C = "chunksize pr fc"
  let ?n = "n_full pr fc S"
  let ?t = "tail_len pr fc S"
  let ?H = "hashsize' fc"
  let ?D = "length S - ?H"
  let ?f = "dec_at pr fc S o_s ?n"
  let ?got = "take ?C (drop (?n * ?C) S)"
  let ?is1 = "\<lparr>content = S, pos = ?n * ?C + ?C, eofbit = False, failbit = False, gcount = ?C\<rparr>"
  have rest: "length S - ?n * ?C = ?t + ?H" using H by (rule rest_length)
  have lgot: "length ?got = ?C" using rest inhash by simp
  have tf: "this ?f = fc" "running_nonce ?f = nonce_at pr fc ?n" "\<not> in_hash ?f"
    "hash_pos ?f = int ?D" "hash_saved ?f = drop ?D S"
    by (simp_all add: dec_at_def)
  have read: "istream_read (istr ?f) ?C = (?got, ?is1)"
    using lgot by (simp add: istream_read_def dec_at_def Let_def)
  have lbuf: "length (ciphertext ?f) = ?C"
    by (rule length_ciphertext_dec_at) simp
  have st: "store (ciphertext ?f) ?got = ?got"
    using lgot lbuf by (simp add: store_full)
  have tl: "tellg ?is1 = int (?n * ?C + ?C)" by (simp add: tellg_def)
  have tlt: "?t < ?C" using C by simp
  have D: "?D = ?n * ?C + ?t" by (simp only: div_mult_mod_eq)
  have past: "?D < ?n * ?C + ?C"
    using tlt by (subst D) simp
  have excess: "nat (int ?C - (int (?n * ?C + ?C) - int ?D)) = ?t"
  proof -
    have "int ?C - (int (?n * ?C + ?C) - int ?D) = int ?D - int (?n * ?C)" by simp
    also have "\<dots> = int ?t" by (subst D) simp
    finally show ?thesis by simp
  qed
  have piece: "dec_piece pr fc S ?n = take ?t (drop (?n * ?C) S)"
    using C H by (rule dec_piece_last(1))
  have dx: "drop_excess (?f\<lparr>istr := ?is1, ciphertext := ?got, current_pos := int (?n * ?C + ?C)\<rparr>)
      = dec_piece pr fc S ?n"
    using tlt lgot
    by (simp add: drop_excess_def tf excess resize_def piece min_def del: of_nat_add of_nat_mult)
  show ?thesis
  proof (cases "CryptorAEAD_decrypt pr (header' fc) (dec_piece pr fc S ?n) (key' fc) (nonce_at pr fc ?n)")
    case (Inl e)
    have "\<exists>f. decrypt_loop pr ?f = Some (Some e, f) \<and> ostr f = ostr ?f \<and>
              ciphertext f = dec_piece pr fc S ?n \<and> state f = state ?f \<and>
              hash_saved f = drop ?D S"
      apply (subst decrypt_loop.simps)
      apply (simp add: Let_def tf read st tl past dx Inl del: of_nat_add of_nat_mult)
      done
    then show ?thesis by (simp add: Inl)
  next
    case (Inr p)
    then have dp: "dec_plain pr fc S ?n = p" by (simp add: dec_plain_def)
    have room: "length p \<le> room o_s - length (concat (map (dec_plain pr fc S) [0..<?n]))"
      using fits dp by simp
    have wr: "ostream_write (ostr ?f) p = ostr (dec_at pr fc S o_s (Suc ?n))"
      using good room dp by (simp add: ostream_write_def dec_at_def)
    have good': "\<not> badbit (ostr (dec_at pr fc S o_s (Suc ?n)))"
      using good by (simp add: dec_at_def)
    have stt: "generichash_update pr (state ?f) (dec_piece pr fc S ?n) = state (dec_at pr fc S o_s (Suc ?n))"
      by (simp add: dec_at_def absorbed_snoc)
    have "\<exists>f. decrypt_loop pr ?f = Some (None, f) \<and> in_hash f \<and> this f = fc \<and>
              ostr f = ostr (dec_at pr fc S o_s (Suc ?n)) \<and>
              state f = state (dec_at pr fc S o_s (Suc ?n)) \<and>
              hash_saved f = drop ?D S"
      apply (subst decrypt_loop.simps)
      apply (simp add: Let_def tf read st tl past dx Inr wr good' del: of_nat_add of_nat_mult)
      apply (subst decrypt_loop.simps)
      apply (simp add: Let_def tf stt)
      done
    then show ?thesis by (simp add: Inr)
  qed
qed

lemma n_pieces_eq:
  assumes "0 < chunksize pr fc" and "hashsize' fc \<le> length S"
  shows "n_pieces pr fc S = n_full pr fc S + (if tail_len pr fc S = 0 then 0 else 1)"
  using length_blocks [OF assms(1), of "take (length S - hashsize' fc) S"] by simp

lemma dec_opens_Inr:
  "dec_opens pr fc S i \<Longrightarrow>
   CryptorAEAD_decrypt pr (header' fc) (dec_piece pr fc S i) (key' fc) (nonce_at pr fc i) =
     Inr (dec_plain pr fc S i)"
  by (simp add: dec_opens_def dec_plain_def split: sum.splits)

lemma not_dec_opens_Inl:
  "\<not> dec_opens pr fc S i \<Longrightarrow>
   CryptorAEAD_decrypt pr (header' fc) (dec_piece pr fc S i) (key' fc) (nonce_at pr fc i) =
     Inl AuthFailure"
  by (auto simp: dec_opens_def split: sum.splits dest: CryptorAEAD_decrypt_Inl)

lemma empty_never_opens:
  assumes "primitives_ok pr" and "0 < MACSIZE pr"
  shows "CryptorAEAD_decrypt pr h [] k n = Inl AuthFailure"
proof (cases "CryptorAEAD_decrypt pr h [] k n")
  case (Inl e)
  then show ?thesis by (simp add: CryptorAEAD_decrypt_Inl [OF Inl])
next
  case (Inr p)
  from length_opened [OF assms(1) Inr] assms(2) show ?thesis by simp
qed

text \<open>The loop and the final partial chunk, when every piece opens.\<close>

lemma decrypt_body:
  assumes ok: "primitives_ok pr" and mac: "0 < MACSIZE pr"
    and H: "hashsize' fc \<le> length S"
    and good: "\<not> badbit o_s" and fits: "length S \<le> room o_s"
    and opens: "\<forall>i < n_pieces pr fc S. dec_opens pr fc S i"
  shows "if tail_len pr fc S = 0 \<and> chunksize pr fc \<le> hashsize' fc
         then \<exists>f. decrypt_loop pr (dec_at pr fc S o_s 0) = Some (Some AuthFailure, f) \<and>
                ostr f = ostr (dec_at pr fc S o_s (n_pieces pr fc S)) \<and> ciphertext f = [] \<and>
                state f = state (dec_at pr fc S o_s (n_pieces pr fc S)) \<and>
                hash_saved f = drop (length S - hashsize' fc) S
         else \<exists>f1 f2. decrypt_loop pr (dec_at pr fc S o_s 0) = Some (None, f1) \<and>
                decrypt_partial pr f1 = (None, f2) \<and> this f2 = fc \<and>
                ostr f2 = ostr (dec_at pr fc S o_s (n_pieces pr fc S)) \<and>
                state f2 = state (dec_at pr fc S o_s (n_pieces pr fc S)) \<and>
                hash_saved f2 = drop (length S - hashsize' fc) S \<and>
                (if tail_len pr fc S + hashsize' fc < chunksize pr fc
                 then f1 = dec_short pr fc S o_s else in_hash f1)"
proof -
  let ?C = "chunksize pr fc"
  let ?n = "n_full pr fc S"
  let ?t = "tail_len pr fc S"
  let ?H = "hashsize' fc"
  let ?m = "n_pieces pr fc S"
  have C: "0 < ?C" using mac by simp
  have m: "?m = ?n + (if ?t = 0 then 0 else 1)" using C H by (rule n_pieces_eq)
  have roomi: "length (concat (map (dec_plain pr fc S) [0..<i])) \<le> room o_s" for i
    using length_dec_plains [OF ok, of fc S i] fits by (rule order_trans)
  have opens_n: "\<forall>j<?n. \<exists>p. CryptorAEAD_decrypt pr (header' fc) (dec_piece pr fc S j) (key' fc)
                           (nonce_at pr fc j) = Inr p"
  proof (intro allI impI)
    fix j assume "j < ?n"
    then have "j < ?m" using m by simp
    with opens have "dec_opens pr fc S j" by blast
    from dec_opens_Inr [OF this]
    show "\<exists>p. CryptorAEAD_decrypt pr (header' fc) (dec_piece pr fc S j) (key' fc)
                (nonce_at pr fc j) = Inr p" by blast
  qed
  have upto: "decrypt_loop pr (dec_at pr fc S o_s 0) = decrypt_loop pr (dec_at pr fc S o_s ?n)"
    by (rule dec_loop_upto [OF ok _ good fits opens_n]) simp
  have lpiece: "length (dec_piece pr fc S ?n) = ?t"
    using C H by (rule dec_piece_last(2))
  show ?thesis
  proof (cases "?t + ?H < ?C")
    case True
    then have notslip: "\<not> (?t = 0 \<and> ?C \<le> ?H)" by simp
    have loop: "decrypt_loop pr (dec_at pr fc S o_s 0) = Some (None, dec_short pr fc S o_s)"
      unfolding upto using C H True by (rule dec_exit_short')
    have ds: "\<not> in_hash (dec_short pr fc S o_s)" "this (dec_short pr fc S o_s) = fc"
      "gcount (istr (dec_short pr fc S o_s)) = ?t + ?H"
      "ostr (dec_short pr fc S o_s) = ostr (dec_at pr fc S o_s ?n)"
      "state (dec_short pr fc S o_s) = state (dec_at pr fc S o_s ?n)"
      "hash_saved (dec_short pr fc S o_s) = drop (length S - ?H) S"
      "running_nonce (dec_short pr fc S o_s) = nonce_at pr fc ?n"
      by (simp_all add: dec_short_def dec_at_def)
    note trim = trim_short [OF C H True, of o_s]
    have "\<exists>f2. decrypt_partial pr (dec_short pr fc S o_s) = (None, f2) \<and> this f2 = fc \<and>
            ostr f2 = ostr (dec_at pr fc S o_s ?m) \<and>
            state f2 = state (dec_at pr fc S o_s ?m) \<and>
            hash_saved f2 = drop (length S - ?H) S"
    proof (cases "?t = 0")
      case t0: True
      then have mn: "?m = ?n" using m by simp
      from t0 lpiece have empty: "dec_piece pr fc S ?n = []" by simp
      show ?thesis
        unfolding mn
        by (simp add: decrypt_partial_def ds trim empty Let_def)
    next
      case tpos: False
      then have mn: "?m = Suc ?n" using m by simp
      from tpos lpiece have nonempty: "dec_piece pr fc S ?n \<noteq> []" by auto
      have "dec_opens pr fc S ?n" using opens mn by simp
      note op = dec_opens_Inr [OF this]
      have room: "length (dec_plain pr fc S ?n)
          \<le> room o_s - length (concat (map (dec_plain pr fc S) [0..<?n]))"
        using roomi [of "Suc ?n"] by simp
      have wr: "ostream_write (ostr (dec_at pr fc S o_s ?n)) (dec_plain pr fc S ?n) =
          ostr (dec_at pr fc S o_s (Suc ?n))"
        using good room by (simp add: ostream_write_def dec_at_def)
      have good': "\<not> badbit (ostr (dec_at pr fc S o_s (Suc ?n)))"
        using good by (simp add: dec_at_def)
      have stt: "generichash_update pr (state (dec_at pr fc S o_s ?n)) (dec_piece pr fc S ?n) =
          state (dec_at pr fc S o_s (Suc ?n))"
        by (simp add: dec_at_def absorbed_snoc)
      have gc: "?t + ?H \<noteq> 0" using tpos by simp
      show ?thesis
        unfolding mn using tpos
        by (simp add: decrypt_partial_def ds trim nonempty Let_def op wr good' stt)
    qed
    with loop notslip True show ?thesis by auto
  next
    case False
    then have inhash: "?C \<le> ?t + ?H" by simp
    note ex = dec_exit_hash [OF C H inhash good roomi [of "Suc ?n"]]
    show ?thesis
    proof (cases "?t = 0")
      case t0: True
      then have mn: "?m = ?n" using m by simp
      from t0 inhash have slip: "?t = 0 \<and> ?C \<le> ?H" by simp
      from t0 lpiece have empty: "dec_piece pr fc S ?n = []" by simp
      have "CryptorAEAD_decrypt pr (header' fc) (dec_piece pr fc S ?n) (key' fc) (nonce_at pr fc ?n)
          = Inl AuthFailure"
        unfolding empty using ok mac by (rule empty_never_opens)
      with ex empty obtain f where
        "decrypt_loop pr (dec_at pr fc S o_s ?n) = Some (Some AuthFailure, f)"
        "ostr f = ostr (dec_at pr fc S o_s ?n)" "ciphertext f = []"
        "state f = state (dec_at pr fc S o_s ?n)" "hash_saved f = drop (length S - ?H) S"
        by auto
      with slip show ?thesis unfolding upto mn by auto
    next
      case tpos: False
      then have mn: "?m = Suc ?n" using m by simp
      from tpos have notslip: "\<not> (?t = 0 \<and> ?C \<le> ?H)" by simp
      have "dec_opens pr fc S ?n" using opens mn by simp
      note op = dec_opens_Inr [OF this]
      with ex obtain f where f:
        "decrypt_loop pr (dec_at pr fc S o_s ?n) = Some (None, f)" "in_hash f" "this f = fc"
        "ostr f = ostr (dec_at pr fc S o_s (Suc ?n))" "state f = state (dec_at pr fc S o_s (Suc ?n))"
        "hash_saved f = drop (length S - ?H) S"
        by auto
      have "decrypt_partial pr f = (None, f)"
        using f(2) by (simp add: decrypt_partial_def)
      with f notslip False show ?thesis unfolding upto mn by auto
    qed
  qed
qed

lemma pieces_eq:
  "map (dec_piece pr fc S) [0..<n_pieces pr fc S] =
     blocks (chunksize pr fc) (take (length S - hashsize' fc) S)"
  by (simp add: blocks_def dec_piece_def [abs_def])

lemma decrypt_result:
  assumes ok: "primitives_ok pr" and mac: "0 < MACSIZE pr"
    and H: "hashsize' fc \<le> length S"
    and good: "\<not> badbit o_s" and fits: "length S \<le> room o_s"
    and opens: "\<forall>i < n_pieces pr fc S. dec_opens pr fc S i"
  shows "\<exists>f. decrypt pr fc (istream_of S) o_s =
           Some (if tail_len pr fc S = 0 \<and> chunksize pr fc \<le> hashsize' fc then Some AuthFailure
                 else if digest pr fc (blocks (chunksize pr fc) (take (length S - hashsize' fc) S))
                           \<noteq> drop (length S - hashsize' fc) S
                 then Some IntegrityFailure else None, f) \<and>
           ostr f = ostr (dec_at pr fc S o_s (n_pieces pr fc S)) \<and>
           (tail_len pr fc S = 0 \<and> chunksize pr fc \<le> hashsize' fc \<longrightarrow> ciphertext f = []) \<and>
           (\<not> (tail_len pr fc S = 0 \<and> chunksize pr fc \<le> hashsize' fc) \<longrightarrow>
              state f = absorbed pr fc (blocks (chunksize pr fc) (take (length S - hashsize' fc) S)) \<and>
              hash_saved f = drop (length S - hashsize' fc) S)"
proof -
  note body = decrypt_body [OF assms]
  have start: "decrypt_start pr fc (istream_of S) o_s = (None, dec_at pr fc S o_s 0)"
    using H by (rule dec_start)
  have st: "state (dec_at pr fc S o_s (n_pieces pr fc S)) =
      absorbed pr fc (blocks (chunksize pr fc) (take (length S - hashsize' fc) S))"
    by (simp add: dec_at_def pieces_eq)
  show ?thesis
  proof (cases "tail_len pr fc S = 0 \<and> chunksize pr fc \<le> hashsize' fc")
    case True
    with body obtain f where
      "decrypt_loop pr (dec_at pr fc S o_s 0) = Some (Some AuthFailure, f)"
      "ostr f = ostr (dec_at pr fc S o_s (n_pieces pr fc S))" "ciphertext f = []"
      by auto
    with True show ?thesis by (simp add: decrypt_def start)
  next
    case False
    with body obtain f1 f2 where f:
      "decrypt_loop pr (dec_at pr fc S o_s 0) = Some (None, f1)"
      "decrypt_partial pr f1 = (None, f2)" "this f2 = fc"
      "ostr f2 = ostr (dec_at pr fc S o_s (n_pieces pr fc S))"
      "state f2 = state (dec_at pr fc S o_s (n_pieces pr fc S))"
      "hash_saved f2 = drop (length S - hashsize' fc) S"
      by auto
    have "decrypt pr fc (istream_of S) o_s = Some (decrypt_hash pr f2)"
      by (simp add: decrypt_def start f(1,2))
    with False f(3-6) show ?thesis
      by (auto simp: decrypt_hash_def Let_def st digest_def)
  qed
qed

text \<open>The same, with the whole of the final frame that the claims look at.\<close>

lemma decrypt_all_open:
  assumes ok: "primitives_ok pr" and mac: "0 < MACSIZE pr"
    and H: "hashsize' fc \<le> length S"
    and good: "\<not> badbit o_s" and fits: "length S \<le> room o_s"
    and opens: "\<forall>i < n_pieces pr fc S. dec_opens pr fc S i"
  shows "\<exists>f. decrypt pr fc (istream_of S) o_s =
           Some (if tail_len pr fc S = 0 \<and> chunksize pr fc \<le> hashsize' fc then Some AuthFailure
                 else if digest pr fc (blocks (chunksize pr fc) (take (length S - hashsize' fc) S))
                           \<noteq> drop (length S - hashsize' fc) S
                 then Some IntegrityFailure else None, f) \<and>
           ostr f = ostr (dec_at pr fc S o_s (n_pieces pr fc S)) \<and>
           state f = state (dec_at pr fc S o_s (n_pieces pr fc S)) \<and>
           hash_saved f = drop (length S - hashsize' fc) S \<and>
           (tail_len pr fc S = 0 \<and> chunksize pr fc \<le> hashsize' fc \<longrightarrow> ciphertext f = [])"
proof -
  note body = decrypt_body [OF assms]
  have start: "decrypt_start pr fc (istream_of S) o_s = (None, dec_at pr fc S o_s 0)"
    using H by (rule dec_start)
  have st: "state (dec_at pr fc S o_s (n_pieces pr fc S)) =
      absorbed pr fc (blocks (chunksize pr fc) (take (length S - hashsize' fc) S))"
    by (simp add: dec_at_def pieces_eq)
  show ?thesis
  proof (cases "tail_len pr fc S = 0 \<and> chunksize pr fc \<le> hashsize' fc")
    case True
    with body obtain f where
      "decrypt_loop pr (dec_at pr fc S o_s 0) = Some (Some AuthFailure, f)"
      "ostr f = ostr (dec_at pr fc S o_s (n_pieces pr fc S))" "ciphertext f = []"
      "state f = state (dec_at pr fc S o_s (n_pieces pr fc S))"
      "hash_saved f = drop (length S - hashsize' fc) S"
      by auto
    with True show ?thesis by (simp add: decrypt_def start)
  next
    case False
    with body obtain f1 f2 where f:
      "decrypt_loop pr (dec_at pr fc S o_s 0) = Some (None, f1)"
      "decrypt_partial pr f1 = (None, f2)" "this f2 = fc"
      "ostr f2 = ostr (dec_at pr fc S o_s (n_pieces pr fc S))"
      "state f2 = state (dec_at pr fc S o_s (n_pieces pr fc S))"
      "hash_saved f2 = drop (length S - hashsize' fc) S"
      by auto
    have "decrypt pr fc (istream_of S) o_s = Some (decrypt_hash pr f2)"
      by (simp add: decrypt_def start f(1,2))
    with False f(3-6) show ?thesis
      by (auto simp: decrypt_hash_def Let_def st digest_def)
  qed
qed

text \<open>The first piece that does not open ends \<open>decrypt\<close> there.\<close>

lemma decrypt_first_not_open:
  assumes ok: "primitives_ok pr" and mac: "0 < MACSIZE pr"
    and H: "hashsize' fc \<le> length S"
    and good: "\<not> badbit o_s" and fits: "length S \<le> room o_s"
    and j: "j < n_pieces pr fc S" and fails: "\<not> dec_opens pr fc S j"
    and before: "\<forall>i<j. dec_opens pr fc S i"
  shows "\<exists>f. decrypt pr fc (istream_of S) o_s = Some (Some AuthFailure, f) \<and>
           ciphertext f = dec_piece pr fc S j \<and>
           ostr f = ostr (dec_at pr fc S o_s j) \<and>
           state f = state (dec_at pr fc S o_s j) \<and>
           hash_saved f = drop (length S - hashsize' fc) S"
proof -
  let ?C = "chunksize pr fc"
  let ?n = "n_full pr fc S"
  let ?t = "tail_len pr fc S"
  let ?H = "hashsize' fc"
  let ?m = "n_pieces pr fc S"
  have C: "0 < ?C" using mac by simp
  have m: "?m = ?n + (if ?t = 0 then 0 else 1)" using C H by (rule n_pieces_eq)
  have start: "decrypt_start pr fc (istream_of S) o_s = (None, dec_at pr fc S o_s 0)"
    using H by (rule dec_start)
  have roomi: "length (concat (map (dec_plain pr fc S) [0..<i])) \<le> room o_s" for i
    using length_dec_plains [OF ok, of fc S i] fits by (rule order_trans)
  note inl = not_dec_opens_Inl [OF fails]
  have jn: "j \<le> ?n" using j m by (simp split: if_splits)
  have "j * ?C \<le> ?n * ?C" using jn by (rule mult_le_mono1)
  then have jlen: "j * ?C \<le> length S - ?H" by (rule order_trans) simp
  have opens_j: "\<forall>i<j. \<exists>p. CryptorAEAD_decrypt pr (header' fc) (dec_piece pr fc S i) (key' fc)
                           (nonce_at pr fc i) = Inr p"
    using before by (auto dest: dec_opens_Inr)
  have upto: "decrypt_loop pr (dec_at pr fc S o_s 0) = decrypt_loop pr (dec_at pr fc S o_s j)"
    by (rule dec_loop_upto [OF ok jlen good fits opens_j])
  have hs: "hash_saved (dec_at pr fc S o_s i) = drop (length S - ?H) S" for i
    by (simp add: dec_at_def)
  show ?thesis
  proof (cases "j < ?n")
    case True
    then have "Suc j * ?C \<le> ?n * ?C" by (intro mult_le_mono1) simp
    then have len: "Suc j * ?C \<le> length S - ?H" by (rule order_trans) simp
    from dec_step [OF len good roomi [of "Suc j"]] inl
    obtain f where "decrypt_loop pr (dec_at pr fc S o_s j) = Some (Some AuthFailure, f)"
      "ciphertext f = dec_piece pr fc S j" "ostr f = ostr (dec_at pr fc S o_s j)"
      "state f = state (dec_at pr fc S o_s j)" "hash_saved f = drop (length S - ?H) S"
      by (simp add: hs)
    then show ?thesis by (simp add: decrypt_def start upto)
  next
    case False
    with jn have jeq: "j = ?n" by simp
    with j m have tpos: "?t \<noteq> 0" by (simp split: if_splits)
    have lpiece: "length (dec_piece pr fc S ?n) = ?t"
      using C H by (rule dec_piece_last(2))
    with tpos have nonempty: "dec_piece pr fc S ?n \<noteq> []" by auto
    note inl' = inl [unfolded jeq]
    show ?thesis
    proof (cases "?t + ?H < ?C")
      case True
      have loop: "decrypt_loop pr (dec_at pr fc S o_s ?n) = Some (None, dec_short pr fc S o_s)"
        using C H True by (rule dec_exit_short')
      have ds: "\<not> in_hash (dec_short pr fc S o_s)" "this (dec_short pr fc S o_s) = fc"
        "gcount (istr (dec_short pr fc S o_s)) = ?t + ?H"
        "running_nonce (dec_short pr fc S o_s) = nonce_at pr fc ?n"
        "ostr (dec_short pr fc S o_s) = ostr (dec_at pr fc S o_s ?n)"
        "state (dec_short pr fc S o_s) = state (dec_at pr fc S o_s ?n)"
        "hash_saved (dec_short pr fc S o_s) = drop (length S - ?H) S"
        by (simp_all add: dec_short_def dec_at_def)
      note trim = trim_short [OF C H True, of o_s]
      have "\<exists>f. decrypt_partial pr (dec_short pr fc S o_s) = (Some AuthFailure, f) \<and>
              ciphertext f = dec_piece pr fc S ?n \<and>
              ostr f = ostr (dec_at pr fc S o_s ?n) \<and>
              state f = state (dec_at pr fc S o_s ?n) \<and>
              hash_saved f = drop (length S - ?H) S"
        using tpos by (simp add: decrypt_partial_def ds trim nonempty Let_def inl')
      then show ?thesis
        using upto unfolding jeq by (auto simp: decrypt_def start loop)
    next
      case False
      then have inhash: "?C \<le> ?t + ?H" by simp
      from dec_exit_hash [OF C H inhash good roomi [of "Suc ?n"]] inl'
      obtain f where "decrypt_loop pr (dec_at pr fc S o_s ?n) = Some (Some AuthFailure, f)"
        "ciphertext f = dec_piece pr fc S ?n" "ostr f = ostr (dec_at pr fc S o_s ?n)"
        "state f = state (dec_at pr fc S o_s ?n)" "hash_saved f = drop (length S - ?H) S"
        by auto
      then show ?thesis
        using upto unfolding jeq by (simp add: decrypt_def start)
    qed
  qed
qed

section \<open>Blocks of a concatenation\<close>

lemma blocks_Nil: "blocks n [] = []"
  by (cases "n = 0") (simp_all add: blocks_def)

lemma blocks_short: "0 < length y \<Longrightarrow> length y \<le> n \<Longrightarrow> blocks n y = [y]"
proof -
  assume y: "0 < length y" "length y \<le> n"
  then have n: "0 < n" by (rule less_le_trans)
  have "length (blocks n y) = 1"
  proof (cases "length y = n")
    case True
    with n show ?thesis by (simp add: length_blocks)
  next
    case False
    with y have "length y < n" by simp
    with y n show ?thesis by (simp add: length_blocks)
  qed
  then have "blocks n y = [block n y 0]"
    by (simp add: blocks_def)
  with y show ?thesis by (simp add: block_def)
qed

lemma blocks_Cons:
  assumes n: "0 < n" and x: "length x = n"
  shows "blocks n (x @ ys) = x # blocks n ys"
proof -
  have len: "(length (x @ ys) + n - 1) div n = Suc ((length ys + n - 1) div n)"
  proof -
    have "length (x @ ys) + n - 1 = (length ys + n - 1) + 1 * n"
      using x n by simp
    then have "(length (x @ ys) + n - 1) div n = ((length ys + n - 1) + 1 * n) div n"
      by simp
    also have "\<dots> = (length ys + n - 1) div n + 1"
      using n by (subst div_mult_self1) simp_all
    finally show ?thesis by simp
  qed
  have b0: "block n (x @ ys) 0 = x"
    using x by (simp add: block_def)
  have bS: "block n (x @ ys) (Suc i) = block n ys i" for i
    using x by (simp add: block_def)
  have "map (block n (x @ ys)) [0..<Suc k] = x # map (block n ys) [0..<k]" for k
    by (simp add: map_upt_Suc b0 bS del: upt_Suc)
  then show ?thesis
    unfolding blocks_def len by simp
qed

lemma blocks_concat:
  assumes n: "0 < n" and full: "\<forall>x \<in> set xs. length x = n" and y: "length y \<le> n"
  shows "blocks n (concat xs @ y) = xs @ (if y = [] then [] else [y])"
  using full
proof (induction xs)
  case Nil
  show ?case
    using y by (simp add: blocks_Nil blocks_short)
next
  case (Cons x xs)
  then have "blocks n (x @ (concat xs @ y)) = x # blocks n (concat xs @ y)"
    using n by (intro blocks_Cons) simp_all
  with Cons show ?case by simp
qed

section \<open>The stream that encrypt writes, read by decrypt\<close>

lemma full_chunks_length:
  assumes ok: "primitives_ok pr"
  shows "\<forall>x \<in> set (map (chunk pr fc P) [0..<length P div blocksize' fc]).
           length x = chunksize pr fc"
proof -
  have "length (chunk pr fc P i) = chunksize pr fc" if "i < length P div blocksize' fc" for i
  proof -
    from that have "Suc i * blocksize' fc \<le> length P div blocksize' fc * blocksize' fc"
      by (intro mult_le_mono1) simp
    then have "Suc i * blocksize' fc \<le> length P" by (rule order_trans) simp
    with ok show ?thesis by (simp add: length_chunk length_block_full)
  qed
  then show ?thesis by auto
qed

lemma blocks_chunks:
  assumes ok: "primitives_ok pr" and bs: "0 < blocksize' fc"
  shows "blocks (chunksize pr fc) (concat (chunks pr fc P)) = chunks pr fc P"
proof -
  let ?q = "length P div blocksize' fc"
  let ?r = "length P mod blocksize' fc"
  let ?full = "map (chunk pr fc P) [0..<?q]"
  let ?y = "if ?r = 0 then [] else chunk pr fc P ?q"
  have C: "0 < chunksize pr fc" using bs by simp
  have ly: "length (chunk pr fc P ?q) = MACSIZE pr + ?r"
    using ok bs by (simp add: length_chunk length_block_last)
  have rlt: "?r < blocksize' fc" using bs by simp
  have y: "length ?y \<le> chunksize pr fc" using ly rlt by simp
  have ynil: "?y = [] \<longleftrightarrow> ?r = 0" using ly by auto
  have cs: "chunks pr fc P = ?full @ (if ?y = [] then [] else [?y])"
    unfolding ynil using bs by (simp add: chunks_split)
  have "concat (chunks pr fc P) = concat ?full @ ?y"
    by (subst cs) simp
  then have "blocks (chunksize pr fc) (concat (chunks pr fc P)) =
      ?full @ (if ?y = [] then [] else [?y])"
    using blocks_concat [OF C full_chunks_length [OF ok] y] by simp
  with cs show ?thesis by simp
qed

lemma stream_parts:
  assumes ok: "primitives_ok pr"
  shows "length (stream pr fc P) - hashsize' fc = length (concat (chunks pr fc P))"
    and "take (length (stream pr fc P) - hashsize' fc) (stream pr fc P) = concat (chunks pr fc P)"
    and "drop (length (stream pr fc P) - hashsize' fc) (stream pr fc P) = digest pr fc (chunks pr fc P)"
    and "hashsize' fc \<le> length (stream pr fc P)"
  using length_digest [OF ok, of fc "chunks pr fc P"] by (simp_all add: stream_def)

lemma stream_pieces:
  assumes ok: "primitives_ok pr" and bs: "0 < blocksize' fc"
  shows "n_pieces pr fc (stream pr fc P) = length (blocks (blocksize' fc) P)"
    and "i < length (blocks (blocksize' fc) P) \<Longrightarrow> dec_piece pr fc (stream pr fc P) i = chunk pr fc P i"
proof -
  have bl: "blocks (chunksize pr fc) (take (length (stream pr fc P) - hashsize' fc) (stream pr fc P))
      = chunks pr fc P"
    unfolding stream_parts(2) [OF ok] using ok bs by (rule blocks_chunks)
  show n: "n_pieces pr fc (stream pr fc P) = length (blocks (blocksize' fc) P)"
    unfolding bl by (simp add: chunks_def)
  assume i: "i < length (blocks (blocksize' fc) P)"
  have "dec_piece pr fc (stream pr fc P) i =
      map (dec_piece pr fc (stream pr fc P)) [0..<n_pieces pr fc (stream pr fc P)] ! i"
    using i unfolding n by simp
  also have "\<dots> = chunks pr fc P ! i"
    by (simp only: trans [OF pieces_eq bl])
  also have "\<dots> = chunk pr fc P i"
    using i by (simp add: chunks_def)
  finally show "dec_piece pr fc (stream pr fc P) i = chunk pr fc P i" .
qed

lemma chunk_opens:
  assumes ok: "primitives_ok pr"
  shows "CryptorAEAD_decrypt pr (header' fc) (chunk pr fc P i) (key' fc) (nonce_at pr fc i) =
           Inr (block (blocksize' fc) P i)"
  using ok by (simp add: chunk_def CryptorAEAD_decrypt_def CryptorAEAD_encrypt_def primitives_ok_def)

lemma stream_opens:
  assumes ok: "primitives_ok pr" and bs: "0 < blocksize' fc"
    and i: "i < length (blocks (blocksize' fc) P)"
  shows "dec_opens pr fc (stream pr fc P) i"
    and "dec_plain pr fc (stream pr fc P) i = block (blocksize' fc) P i"
  using chunk_opens [OF ok, of fc P i] stream_pieces(2) [OF ok bs i]
  by (simp_all add: dec_opens_def dec_plain_def)

lemma stream_tail:
  assumes ok: "primitives_ok pr" and bs: "0 < blocksize' fc"
  shows "tail_len pr fc (stream pr fc P) = 0 \<longleftrightarrow> length P mod blocksize' fc = 0"
proof -
  let ?C = "chunksize pr fc"
  let ?q = "length P div blocksize' fc"
  let ?r = "length P mod blocksize' fc"
  have D: "length (stream pr fc P) - hashsize' fc =
      (if ?r = 0 then 0 else MACSIZE pr + ?r) + ?q * ?C"
    using length_stream [OF ok bs, of P] by simp
  have rlt: "?r < blocksize' fc" using bs by simp
  have "tail_len pr fc (stream pr fc P) = (if ?r = 0 then 0 else MACSIZE pr + ?r) mod ?C"
    unfolding D by simp
  also have "\<dots> = (if ?r = 0 then 0 else MACSIZE pr + ?r)"
    using rlt by simp
  finally show ?thesis by simp
qed

lemma decrypt_stream:
  assumes ok: "primitives_ok pr" and mac: "0 < MACSIZE pr" and bs: "0 < blocksize' fc"
    and good: "\<not> badbit o_s" and fits: "length (stream pr fc P) \<le> room o_s"
  shows "\<exists>f. decrypt pr fc (istream_of (stream pr fc P)) o_s =
           Some (if length P mod blocksize' fc = 0 \<and> chunksize pr fc \<le> hashsize' fc
                 then Some AuthFailure else None, f) \<and>
           written (ostr f) = written o_s @ P"
proof -
  let ?S = "stream pr fc P"
  have H: "hashsize' fc \<le> length ?S" using ok by (rule stream_parts(4))
  have n: "n_pieces pr fc ?S = length (blocks (blocksize' fc) P)"
    using ok bs by (rule stream_pieces(1))
  have opens: "\<forall>i < n_pieces pr fc ?S. dec_opens pr fc ?S i"
    unfolding n using stream_opens(1) [OF ok bs] by blast
  have plains: "map (dec_plain pr fc ?S) [0..<n_pieces pr fc ?S] = blocks (blocksize' fc) P"
    unfolding n using stream_opens(2) [OF ok bs, of _ P]
    by (intro nth_equalityI) (simp_all add: blocks_def)
  have wr: "written (ostr (dec_at pr fc ?S o_s (n_pieces pr fc ?S))) = written o_s @ P"
    using bs by (simp add: dec_at_def plains concat_blocks)
  have dg: "digest pr fc (blocks (chunksize pr fc) (take (length ?S - hashsize' fc) ?S)) =
      drop (length ?S - hashsize' fc) ?S"
    unfolding stream_parts(2,3) [OF ok] blocks_chunks [OF ok bs] ..
  from decrypt_result [OF ok mac H good fits opens]
  show ?thesis
    unfolding stream_tail [OF ok bs] by (auto simp: dg wr)
qed

section \<open>Pieces by index\<close>

lemma nth_pieces:
  assumes "i < n_pieces pr fc S"
  shows "blocks (chunksize pr fc) (take (length S - hashsize' fc) S) ! i = dec_piece pr fc S i"
proof -
  have "blocks (chunksize pr fc) (take (length S - hashsize' fc) S) ! i =
      map (dec_piece pr fc S) [0..<n_pieces pr fc S] ! i"
    by (simp only: pieces_eq)
  also have "\<dots> = dec_piece pr fc S i"
    using assms by (simp only: nth_map length_upt nth_upt minus_nat.diff_0 add_0)
  finally show ?thesis .
qed

lemma n_opened_le: "n_opened pr fc S \<le> n_pieces pr fc S"
  unfolding n_opened_def using length_takeWhile_le [of "dec_opens pr fc S" "[0..<n_pieces pr fc S]"]
  by simp

lemma takeWhile_upt: "takeWhile P [0..<n] = [0..<length (takeWhile P [0..<n])]"
proof -
  have "takeWhile P [0..<n] = take (length (takeWhile P [0..<n])) [0..<n]"
    by (rule takeWhile_eq_take)
  also have "\<dots> = [0..<min (length (takeWhile P [0..<n])) n]"
    by (simp add: take_upt min_def)
  also have "min (length (takeWhile P [0..<n])) n = length (takeWhile P [0..<n])"
    using length_takeWhile_le [of P "[0..<n]"] by simp
  finally show ?thesis .
qed

lemma n_opened_opens: "i < n_opened pr fc S \<Longrightarrow> dec_opens pr fc S i"
proof -
  assume "i < n_opened pr fc S"
  then have "i \<in> set [0..<n_opened pr fc S]" by simp
  then have "i \<in> set (takeWhile (dec_opens pr fc S) [0..<n_pieces pr fc S])"
    unfolding n_opened_def takeWhile_upt [symmetric] .
  then show ?thesis by (rule set_takeWhileD [THEN conjunct2])
qed

lemma n_opened_fails:
  assumes "n_opened pr fc S < n_pieces pr fc S"
  shows "\<not> dec_opens pr fc S (n_opened pr fc S)"
proof -
  have "length (takeWhile (dec_opens pr fc S) [0..<n_pieces pr fc S]) < length [0..<n_pieces pr fc S]"
    using assms by (simp add: n_opened_def)
  from nth_length_takeWhile [OF this] assms show ?thesis
    by (simp add: n_opened_def)
qed

section \<open>Round trip\<close>

lemma roundtrip:
  assumes ok: "primitives_ok pr" and mac: "0 < MACSIZE pr" and bs: "0 < blocksize' fc"
    and fits: "length (stream pr fc P) \<le> n"
  shows "\<exists>f g. encrypt pr fc (istream_of P) (sink n) = Some (None, f) \<and>
           written (ostr f) = stream pr fc P \<and>
           decrypt pr fc (istream_of (written (ostr f))) (sink n) =
             Some (if length P mod blocksize' fc = 0 \<and> chunksize pr fc \<le> hashsize' fc
                   then Some AuthFailure else None, g) \<and>
           written (ostr g) = P"
proof -
  have good: "\<not> badbit (sink n)" and room: "length (stream pr fc P) \<le> room (sink n)"
    and w: "written (sink n) = []"
    using fits by (simp_all add: sink_def)
  from encrypt_result [OF ok bs good room] obtain f where
    f: "encrypt pr fc (istream_of P) (sink n) = Some (None, f)"
      "ostr f = (sink n)\<lparr>written := written (sink n) @ stream pr fc P,
                          room := room (sink n) - length (stream pr fc P)\<rparr>"
    by blast
  then have wf: "written (ostr f) = stream pr fc P" by (simp add: w)
  from decrypt_stream [OF ok mac bs good room] obtain g where
    "decrypt pr fc (istream_of (stream pr fc P)) (sink n) =
       Some (if length P mod blocksize' fc = 0 \<and> chunksize pr fc \<le> hashsize' fc
             then Some AuthFailure else None, g)"
    "written (ostr g) = written (sink n) @ P"
    by blast
  with f(1) wf w show ?thesis by auto
qed

text \<open>
  C1, where the code departs from it: when the plaintext is a whole number of blocks
  (the empty plaintext included) and a full chunk is not longer than the hash block,
  \<open>decrypt\<close> of what \<open>encrypt\<close> wrote, with the same key, base nonce and blocksize, writes
  the plaintext and then throws from the chunk decryption: the read that reaches the hash
  block is a full-size read, the loop trims it to nothing and passes the empty chunk on.
\<close>

theorem roundtrip_fails_on_whole_blocks:
  assumes "primitives_ok pr" and "0 < MACSIZE pr" and "0 < blocksize' fc"
    and "length (stream pr fc P) \<le> n"
    and "length P mod blocksize' fc = 0"
    and "MACSIZE pr + blocksize' fc \<le> hashsize' fc"
  shows "\<exists>f g. encrypt pr fc (istream_of P) (sink n) = Some (None, f) \<and>
           decrypt pr fc (istream_of (written (ostr f))) (sink n) = Some (Some AuthFailure, g) \<and>
           written (ostr g) = P"
  using roundtrip [OF assms(1-4)] assms(5,6) by auto

theorem roundtrip_fails_on_whole_blocks_witness:
  "primitives_ok toy \<and> 0 < MACSIZE toy \<and> 0 < blocksize' (sample_cryptor 4 32) \<and>
   length (stream toy (sample_cryptor 4 32) [65, 66, 67, 68, 69, 70, 71, 72]) \<le> 100 \<and>
   length [65, 66, 67, 68, 69, 70, 71, 72 :: byte] mod blocksize' (sample_cryptor 4 32) = 0 \<and>
   MACSIZE toy + blocksize' (sample_cryptor 4 32) \<le> hashsize' (sample_cryptor 4 32) \<and>
   (\<exists>f g. encrypt toy (sample_cryptor 4 32) (istream_of [65, 66, 67, 68, 69, 70, 71, 72]) (sink 100) =
             Some (None, f) \<and>
          decrypt toy (sample_cryptor 4 32) (istream_of (written (ostr f))) (sink 100) =
             Some (Some AuthFailure, g) \<and>
          written (ostr g) = [65, 66, 67, 68, 69, 70, 71, 72])"
proof -
  let ?fc = "sample_cryptor 4 32"
  let ?P = "[65, 66, 67, 68, 69, 70, 71, 72] :: data_t"
  have mac: "0 < MACSIZE toy" by (simp add: toy_def)
  have bs: "0 < blocksize' ?fc" by (simp add: sample_cryptor_def)
  have fits: "length (stream toy ?fc ?P) \<le> 100"
    by (simp add: length_stream [OF toy_ok bs]) (simp add: sample_cryptor_def toy_def)
  have whole: "length ?P mod blocksize' ?fc = 0" by (simp add: sample_cryptor_def)
  have small: "MACSIZE toy + blocksize' ?fc \<le> hashsize' ?fc"
    by (simp add: sample_cryptor_def toy_def)
  show ?thesis
    using toy_ok mac bs fits whole small
      roundtrip_fails_on_whole_blocks [OF toy_ok mac bs fits whole small]
    by blast
qed

section \<open>The hash block is kept out of the data\<close>

text \<open>
  C9: \<open>decrypt\<close> keeps the hash block, the last \<open>hashsize\<close> bytes of its input, out of
  the chunk decryption and out of the recomputed hash. For every input that holds a hash
  block, \<open>decrypt\<close> returns, and what it has done is fixed by the bytes before the hash
  block alone, cut into pieces of a full chunk each (the last one possibly shorter), which
  together are the bytes at positions \<open>[0, L - hashsize)\<close>:

    \<^item> the hash block itself is only ever the saved hash;
    \<^item> the pieces at the front that open are the chunks that were decrypted, each under its
      own running nonce; their plaintexts are what was written, and the state of the hash
      has absorbed exactly these pieces, in order;
    \<^item> when a piece does not open, it is the chunk that was passed to the chunk decryption
      last, and \<open>decrypt\<close> fails there with \<open>AuthFailure\<close>;
    \<^item> when every piece opens, the hash has absorbed all of \<open>[0, L - hashsize)\<close> and the
      result is the comparison of that hash with the saved hash block; except that a
      full-size read wholly inside the hash block is trimmed to an empty chunk, and the
      chunk decryption is called on this empty chunk and fails.

  The sink has room for the plaintext, and a full chunk is of a size that the source can
  compute and allocate.
\<close>

theorem digest_excludes_trailer:
  assumes "primitives_ok pr" and "0 < MACSIZE pr"
    and "MACSIZE pr + blocksize' fc \<le> streamsize_max"
    and "hashsize' fc \<le> length S"
    and "\<not> badbit o_s" and "length S \<le> room o_s"
  shows "\<exists>e f. decrypt pr fc (istream_of S) o_s = Some (e, f) \<and>
           concat (blocks (MACSIZE pr + blocksize' fc) (take (length S - hashsize' fc) S)) =
             take (length S - hashsize' fc) S \<and>
           hash_saved f = drop (length S - hashsize' fc) S \<and>
           state f = absorbed pr fc
             (take (n_opened pr fc S)
                (blocks (MACSIZE pr + blocksize' fc) (take (length S - hashsize' fc) S))) \<and>
           written (ostr f) =
             written o_s @ concat (map (dec_plain pr fc S) [0..<n_opened pr fc S]) \<and>
           (\<forall>i < n_opened pr fc S.
              CryptorAEAD_decrypt pr (header' fc)
                (blocks (MACSIZE pr + blocksize' fc) (take (length S - hashsize' fc) S) ! i)
                (key' fc) ((increment pr ^^ i) (nonce' fc)) = Inr (dec_plain pr fc S i)) \<and>
           (if n_opened pr fc S <
                 length (blocks (MACSIZE pr + blocksize' fc) (take (length S - hashsize' fc) S))
            then e = Some AuthFailure \<and>
                 ciphertext f =
                   blocks (MACSIZE pr + blocksize' fc) (take (length S - hashsize' fc) S) !
                     n_opened pr fc S \<and>
                 CryptorAEAD_decrypt pr (header' fc) (ciphertext f) (key' fc)
                   ((increment pr ^^ n_opened pr fc S) (nonce' fc)) = Inl AuthFailure
            else if (length S - hashsize' fc) mod (MACSIZE pr + blocksize' fc) = 0 \<and>
                    MACSIZE pr + blocksize' fc \<le> hashsize' fc
            then e = Some AuthFailure \<and> ciphertext f = []
            else e = (if generichash_final pr (state f) (hashsize' fc) = hash_saved f
                      then None else Some IntegrityFailure))"
proof -
  let ?C = "chunksize pr fc"
  let ?D = "length S - hashsize' fc"
  let ?bl = "blocks ?C (take ?D S)"
  let ?m = "n_pieces pr fc S"
  let ?k = "n_opened pr fc S"
  note a = assms(1,2,4,5,6)
  have C: "0 < ?C" using assms(2) by simp
  have cc: "concat ?bl = take ?D S" using C by (rule concat_blocks)
  have km: "?k \<le> ?m" by (rule n_opened_le)
  have tk: "take ?k ?bl = map (dec_piece pr fc S) [0..<?k]"
  proof -
    have "take ?k ?bl = take ?k (map (dec_piece pr fc S) [0..<?m])"
      by (simp only: pieces_eq)
    also have "\<dots> = map (dec_piece pr fc S) (take ?k [0..<?m])"
      by (rule take_map)
    also have "take ?k [0..<?m] = [0..<?k]"
      using km by (simp add: take_upt)
    finally show ?thesis .
  qed
  have st_at: "state (dec_at pr fc S o_s ?k) = absorbed pr fc (take ?k ?bl)"
    unfolding tk by (simp add: dec_at_def)
  have wr_at: "written (ostr (dec_at pr fc S o_s ?k)) =
      written o_s @ concat (map (dec_plain pr fc S) [0..<?k])"
    by (simp add: dec_at_def)
  have opened: "\<forall>i < ?k. CryptorAEAD_decrypt pr (header' fc) (?bl ! i) (key' fc)
                       ((increment pr ^^ i) (nonce' fc)) = Inr (dec_plain pr fc S i)"
  proof (intro allI impI)
    fix i assume i: "i < ?k"
    then have im: "i < ?m" using km by simp
    from i have "dec_opens pr fc S i" by (rule n_opened_opens)
    from dec_opens_Inr [OF this]
    show "CryptorAEAD_decrypt pr (header' fc) (?bl ! i) (key' fc)
                       ((increment pr ^^ i) (nonce' fc)) = Inr (dec_plain pr fc S i)"
      unfolding nth_pieces [OF im] nonce_at_def .
  qed
  show ?thesis
  proof (cases "?k < ?m")
    case True
    have fails: "\<not> dec_opens pr fc S ?k" using True by (rule n_opened_fails)
    have before: "\<forall>i<?k. dec_opens pr fc S i" using n_opened_opens by blast
    from decrypt_first_not_open [OF a True fails before] obtain f where all:
      "decrypt pr fc (istream_of S) o_s = Some (Some AuthFailure, f) \<and>
       ciphertext f = dec_piece pr fc S ?k \<and>
       ostr f = ostr (dec_at pr fc S o_s ?k) \<and>
       state f = state (dec_at pr fc S o_s ?k) \<and>
       hash_saved f = drop ?D S" ..
    have run: "decrypt pr fc (istream_of S) o_s = Some (Some AuthFailure, f)"
      and ct: "ciphertext f = ?bl ! ?k"
      and os: "ostr f = ostr (dec_at pr fc S o_s ?k)"
      and st: "state f = absorbed pr fc (take ?k ?bl)"
      and hs: "hash_saved f = drop ?D S"
      using all by (simp_all only: nth_pieces [OF True] st_at)
    have wr: "written (ostr f) = written o_s @ concat (map (dec_plain pr fc S) [0..<?k])"
      unfolding os by (rule wr_at)
    have inl: "CryptorAEAD_decrypt pr (header' fc) (ciphertext f) (key' fc)
                   ((increment pr ^^ ?k) (nonce' fc)) = Inl AuthFailure"
      using not_dec_opens_Inl [OF fails] unfolding ct nth_pieces [OF True] nonce_at_def .
    show ?thesis
      apply (rule exI [of _ "Some AuthFailure"])
      apply (rule exI [of _ f])
      apply (intro conjI run cc hs st wr opened)
      apply (simp only: True if_True)
      apply (intro conjI refl ct inl)
      done
  next
    case False
    with km have keq: "?k = ?m" by simp
    have opens: "\<forall>i < ?m. dec_opens pr fc S i"
      using n_opened_opens [of _ pr fc S] unfolding keq by blast
    let ?slip = "tail_len pr fc S = 0 \<and> ?C \<le> hashsize' fc"
    let ?e = "if ?slip then Some AuthFailure
              else if digest pr fc ?bl \<noteq> drop ?D S then Some IntegrityFailure else None"
    from decrypt_all_open [OF a opens] obtain f where all:
      "decrypt pr fc (istream_of S) o_s = Some (?e, f) \<and>
       ostr f = ostr (dec_at pr fc S o_s ?m) \<and>
       state f = state (dec_at pr fc S o_s ?m) \<and>
       hash_saved f = drop ?D S \<and>
       (?slip \<longrightarrow> ciphertext f = [])" ..
    have run: "decrypt pr fc (istream_of S) o_s = Some (?e, f)"
      and os: "ostr f = ostr (dec_at pr fc S o_s ?k)"
      and st: "state f = absorbed pr fc (take ?k ?bl)"
      and hs: "hash_saved f = drop ?D S"
      using all unfolding keq [symmetric] by (simp_all only: st_at)
    have sl: "?slip \<longrightarrow> ciphertext f = []"
      using all by (elim conjE)
    have wr: "written (ostr f) = written o_s @ concat (map (dec_plain pr fc S) [0..<?k])"
      unfolding os by (rule wr_at)
    have full: "take ?k ?bl = ?bl" unfolding keq by simp
    have last: "if ?slip then ?e = Some AuthFailure \<and> ciphertext f = []
                else ?e = (if generichash_final pr (state f) (hashsize' fc) = hash_saved f
                           then None else Some IntegrityFailure)"
      using sl unfolding st hs full by (simp add: digest_def)
    show ?thesis
      apply (rule exI [of _ ?e])
      apply (rule exI [of _ f])
      apply (intro conjI run cc hs st wr opened)
      apply (simp only: False if_False)
      apply (rule last)
      done
  qed
qed

theorem digest_excludes_trailer_witness:
  "primitives_ok toy \<and> 0 < MACSIZE toy \<and>
   MACSIZE toy + blocksize' (sample_cryptor 4 16) \<le> streamsize_max \<and>
   hashsize' (sample_cryptor 4 16) \<le> length sample_stream \<and>
   \<not> badbit (sink 100) \<and> length sample_stream \<le> room (sink 100) \<and>
   length sample_stream = 53 \<and>
   (\<exists>f. decrypt toy (sample_cryptor 4 16) (istream_of sample_stream) (sink 100) = Some (None, f) \<and>
      state f = [1, 2, 3] @ take 37 sample_stream \<and>
      hash_saved f = drop 37 sample_stream \<and>
      written (ostr f) = [65, 66, 67, 68, 69]) \<and>
   (\<exists>f. decrypt toy (sample_cryptor 4 16) (istream_of (sample_stream[25 := 0])) (sink 100) =
          Some (Some AuthFailure, f) \<and>
      state f = [1, 2, 3] @ take 20 sample_stream \<and>
      ciphertext f = take 17 (drop 20 (sample_stream[25 := 0])) \<and>
      written (ostr f) = [65, 66, 67, 68])"
proof -
  let ?fc = "sample_cryptor 4 16"
  let ?S = "sample_stream"
  let ?T = "sample_stream[25 := 0]"
  have mac: "0 < MACSIZE toy" by (simp add: toy_def)
  have bound: "MACSIZE toy + blocksize' ?fc \<le> streamsize_max"
    by (simp add: toy_def sample_cryptor_def streamsize_max_def)
  have len: "length ?S = 53" by code_simp
  have H: "hashsize' ?fc \<le> length ?S" "hashsize' ?fc \<le> length ?T"
    by (simp_all add: len) (simp_all add: sample_cryptor_def)
  have good: "\<not> badbit (sink 100)" by (simp add: sink_def)
  have fits: "length ?S \<le> room (sink 100)" "length ?T \<le> room (sink 100)"
    by (simp_all add: len sink_def)
  have D: "length ?S - 16 = 37" "length ?T - 16 = 37"
    by (simp_all add: len)
  have C: "MACSIZE toy + blocksize' ?fc = 20" "hashsize' ?fc = 16"
    by (simp_all add: toy_def sample_cryptor_def)
  have k: "n_opened toy ?fc ?S = 2" "n_opened toy ?fc ?T = 1"
    by code_simp+
  have bl: "blocks 20 (take 37 ?S) = [take 20 ?S, take 17 (drop 20 ?S)]"
    "blocks 20 (take 37 ?T) = [take 20 ?S, take 17 (drop 20 ?T)]"
    by code_simp+
  have ab: "absorbed toy ?fc (take 2 [take 20 ?S, take 17 (drop 20 ?S)]) = [1, 2, 3] @ take 37 ?S"
    "absorbed toy ?fc (take 1 [take 20 ?S, take 17 (drop 20 ?T)]) = [1, 2, 3] @ take 20 ?S"
    by code_simp+
  have hd: "generichash_final toy ([1, 2, 3] @ take 37 ?S) 16 = drop 37 ?S"
    by code_simp
  have pl: "concat (map (dec_plain toy ?fc ?S) [0..<2]) = [65, 66, 67, 68, 69]"
    "concat (map (dec_plain toy ?fc ?T) [0..<1]) = [65, 66, 67, 68]"
    by code_simp+
  have wr: "written (sink 100) = []" by (simp add: sink_def)
  note one = digest_excludes_trailer [OF toy_ok mac bound H(1) good fits(1),
      unfolded C D k bl ab pl wr]
  note two = digest_excludes_trailer [OF toy_ok mac bound H(2) good fits(2),
      unfolded C D k bl ab pl wr]
  from one have first:
    "\<exists>f. decrypt toy ?fc (istream_of ?S) (sink 100) = Some (None, f) \<and>
       state f = [1, 2, 3] @ take 37 ?S \<and> hash_saved f = drop 37 ?S \<and>
       written (ostr f) = [65, 66, 67, 68, 69]"
    using hd by auto
  from two have second:
    "\<exists>f. decrypt toy ?fc (istream_of ?T) (sink 100) = Some (Some AuthFailure, f) \<and>
       state f = [1, 2, 3] @ take 20 ?S \<and> ciphertext f = take 17 (drop 20 ?T) \<and>
       written (ostr f) = [65, 66, 67, 68]"
    by auto
  from toy_ok mac bound H(1) good fits(1) len first second
  show ?thesis by (intro conjI)
qed

section \<open>The final short read\<close>

lemma final_read_only_hash_stream:
  assumes ok: "primitives_ok pr" and mac: "0 < MACSIZE pr" and bs: "0 < blocksize' fc"
    and good: "\<not> badbit o_s" and fits: "length (stream pr fc P) \<le> room o_s"
  shows "final_read_only_hash pr fc (istream_of (stream pr fc P)) o_s \<longleftrightarrow>
           length P mod blocksize' fc = 0 \<and> 0 < hashsize' fc \<and>
           hashsize' fc < MACSIZE pr + blocksize' fc"
proof -
  let ?S = "stream pr fc P"
  let ?C = "chunksize pr fc"
  let ?H = "hashsize' fc"
  let ?t = "tail_len pr fc ?S"
  let ?n = "n_full pr fc ?S"
  have C: "0 < ?C" using mac by simp
  have H: "?H \<le> length ?S" using ok by (rule stream_parts(4))
  have n: "n_pieces pr fc ?S = length (blocks (blocksize' fc) P)"
    using ok bs by (rule stream_pieces(1))
  have opens: "\<forall>i < n_pieces pr fc ?S. dec_opens pr fc ?S i"
    unfolding n using stream_opens(1) [OF ok bs] by blast
  have start: "decrypt_start pr fc (istream_of ?S) o_s = (None, dec_at pr fc ?S o_s 0)"
    using H by (rule dec_start)
  have tail: "?t = 0 \<longleftrightarrow> length P mod blocksize' fc = 0"
    using ok bs by (rule stream_tail)
  note body = decrypt_body [OF ok mac H good fits opens]
  show ?thesis
  proof (cases "?t = 0 \<and> ?C \<le> ?H")
    case True
    with body obtain f where "decrypt_loop pr (dec_at pr fc ?S o_s 0) = Some (Some AuthFailure, f)"
      by auto
    then have "\<not> final_read_only_hash pr fc (istream_of ?S) o_s"
      by (simp add: final_read_only_hash_def start)
    with True show ?thesis by auto
  next
    case False
    with body obtain f1 where
      loop: "decrypt_loop pr (dec_at pr fc ?S o_s 0) = Some (None, f1)" and
      which: "if ?t + ?H < ?C then f1 = dec_short pr fc ?S o_s else in_hash f1"
      by auto
    have pred: "final_read_only_hash pr fc (istream_of ?S) o_s \<longleftrightarrow>
        \<not> in_hash f1 \<and> gcount (istr f1) \<noteq> 0 \<and> ciphertext (trim_partial f1) = []"
      by (simp add: final_read_only_hash_def start loop)
    show ?thesis
    proof (cases "?t + ?H < ?C")
      case short: True
      with which have f1: "f1 = dec_short pr fc ?S o_s" by simp
      have lp: "length (dec_piece pr fc ?S ?n) = ?t"
        using C H by (rule dec_piece_last(2))
      have ct: "ciphertext (trim_partial f1) = [] \<longleftrightarrow> ?t = 0"
        unfolding f1 trim_short [OF C H short] using lp by auto
      have fl: "\<not> in_hash f1" "gcount (istr f1) = ?t + ?H"
        unfolding f1 by (simp_all add: dec_short_def dec_at_def)
      have "final_read_only_hash pr fc (istream_of ?S) o_s \<longleftrightarrow> ?t = 0 \<and> 0 < ?H"
        unfolding pred ct using fl by auto
      also have "\<dots> \<longleftrightarrow> length P mod blocksize' fc = 0 \<and> 0 < ?H \<and> ?H < ?C"
        unfolding tail [symmetric] using short by auto
      finally show ?thesis .
    next
      case long: False
      with which have "in_hash f1" by simp
      then have no: "\<not> final_read_only_hash pr fc (istream_of ?S) o_s"
        unfolding pred by simp
      have "\<not> (?t = 0 \<and> 0 < ?H \<and> ?H < ?C)" using long by auto
      with no show ?thesis unfolding tail [symmetric] by blast
    qed
  qed
qed

text \<open>
  C6, as the code has it. When the final short read took bytes of the hash block only,
  no final chunk is decrypted: the output, the hash and the running nonce stay as the loop
  left them. On a stream that \<open>encrypt\<close> wrote, this case arises precisely when the
  plaintext is a whole number of blocks and the hash block is not empty and shorter than a
  full chunk.
\<close>

theorem final_short_read_only_hash:
  assumes "primitives_ok pr" and "0 < MACSIZE pr" and "0 < blocksize' fc"
    and "length (stream pr fc P) \<le> n"
  shows "(\<exists>f. encrypt pr fc (istream_of P) (sink n) = Some (None, f) \<and>
            (final_read_only_hash pr fc (istream_of (written (ostr f))) (sink n) \<longleftrightarrow>
               length P mod blocksize' fc = 0 \<and> 0 < hashsize' fc \<and>
               hashsize' fc < MACSIZE pr + blocksize' fc)) \<and>
         (\<forall>g. \<not> in_hash g \<and> gcount (istr g) \<noteq> 0 \<and> ciphertext (trim_partial g) = [] \<longrightarrow>
            decrypt_partial pr g = (None, trim_partial g) \<and>
            ostr (trim_partial g) = ostr g \<and> state (trim_partial g) = state g \<and>
            running_nonce (trim_partial g) = running_nonce g)"
proof -
  have good: "\<not> badbit (sink n)" and room: "length (stream pr fc P) \<le> room (sink n)"
    and w: "written (sink n) = []"
    using assms(4) by (simp_all add: sink_def)
  from encrypt_result [OF assms(1,3) good room] obtain f where
    f: "encrypt pr fc (istream_of P) (sink n) = Some (None, f) \<and> this f = fc \<and>
        ostr f = (sink n)\<lparr>written := written (sink n) @ stream pr fc P,
                          room := room (sink n) - length (stream pr fc P)\<rparr> \<and>
        state f = absorbed pr fc (chunks pr fc P) \<and>
        running_nonce f = nonce_at pr fc (length P div blocksize' fc)" ..
  then have enc: "encrypt pr fc (istream_of P) (sink n) = Some (None, f)"
    and wf: "written (ostr f) = stream pr fc P"
    by (simp_all add: w)
  note iff = final_read_only_hash_stream [OF assms(1,2,3) good room]
  have first: "\<exists>f. encrypt pr fc (istream_of P) (sink n) = Some (None, f) \<and>
            (final_read_only_hash pr fc (istream_of (written (ostr f))) (sink n) \<longleftrightarrow>
               length P mod blocksize' fc = 0 \<and> 0 < hashsize' fc \<and>
               hashsize' fc < MACSIZE pr + blocksize' fc)"
    using enc iff unfolding wf [symmetric] by (intro exI [of _ f] conjI)
  have second: "decrypt_partial pr g = (None, trim_partial g) \<and>
            ostr (trim_partial g) = ostr g \<and> state (trim_partial g) = state g \<and>
            running_nonce (trim_partial g) = running_nonce g"
    if "\<not> in_hash g \<and> gcount (istr g) \<noteq> 0 \<and> ciphertext (trim_partial g) = []"
    for g :: "'a dec_frame"
    using that by (simp add: decrypt_partial_def Let_def) (simp add: trim_partial_def Let_def)
  from first second show ?thesis by blast
qed

theorem final_short_read_only_hash_witness:
  "primitives_ok toy \<and> 0 < MACSIZE toy \<and> 0 < blocksize' (sample_cryptor 4 16) \<and>
   length (stream toy (sample_cryptor 4 16) [65, 66, 67, 68, 69, 70, 71, 72]) \<le> 100 \<and>
   (\<exists>f. encrypt toy (sample_cryptor 4 16) (istream_of [65, 66, 67, 68, 69, 70, 71, 72]) (sink 100) =
           Some (None, f) \<and>
        final_read_only_hash toy (sample_cryptor 4 16) (istream_of (written (ostr f))) (sink 100))"
proof -
  let ?fc = "sample_cryptor 4 16"
  let ?P = "[65, 66, 67, 68, 69, 70, 71, 72] :: data_t"
  have mac: "0 < MACSIZE toy" by (simp add: toy_def)
  have bs: "0 < blocksize' ?fc" by (simp add: sample_cryptor_def)
  have fits: "length (stream toy ?fc ?P) \<le> 100"
    by (simp add: length_stream [OF toy_ok bs]) (simp add: sample_cryptor_def toy_def)
  have rhs: "length ?P mod blocksize' ?fc = 0 \<and> 0 < hashsize' ?fc \<and>
      hashsize' ?fc < MACSIZE toy + blocksize' ?fc"
    by (simp add: sample_cryptor_def toy_def)
  from final_short_read_only_hash [OF toy_ok mac bs fits]
  have "\<exists>f. encrypt toy ?fc (istream_of ?P) (sink 100) = Some (None, f) \<and>
            (final_read_only_hash toy ?fc (istream_of (written (ostr f))) (sink 100) \<longleftrightarrow>
               length ?P mod blocksize' ?fc = 0 \<and> 0 < hashsize' ?fc \<and>
               hashsize' ?fc < MACSIZE toy + blocksize' ?fc)"
    by (rule conjunct1)
  then obtain f where
    "encrypt toy ?fc (istream_of ?P) (sink 100) = Some (None, f)"
    "final_read_only_hash toy ?fc (istream_of (written (ostr f))) (sink 100)"
    unfolding simp_thms(21) using rhs by (elim exE conjE) (simp only: simp_thms)
  then have "\<exists>f. encrypt toy ?fc (istream_of ?P) (sink 100) = Some (None, f) \<and>
      final_read_only_hash toy ?fc (istream_of (written (ostr f))) (sink 100)"
    by (intro exI conjI)
  with toy_ok mac bs fits show ?thesis by (intro conjI)
qed

text \<open>
  C6, as the claim states it, fails: the empty plaintext is a whole number of blocks of 8
  bytes, \<open>encrypt\<close> writes only the 32 bytes of the hash, and in \<open>decrypt\<close> of these the
  first read of 24 bytes is a full read, so that the case of a final short read does not
  arise.
\<close>

theorem final_short_read_counterexample:
  "length ([] :: data_t) mod blocksize' (sample_cryptor 8 32) = 0 \<and>
   encrypt toy (sample_cryptor 8 32) (istream_of []) (sink 100) =
     Some (None,
       \<lparr>this = sample_cryptor 8 32,
        istr = \<lparr>content = [], pos = 0, eofbit = True, failbit = True, gcount = 0\<rparr>,
        ostr = \<lparr>written = replicate 32 9, room = 68, badbit = False\<rparr>,
        state = [1, 2, 3], running_nonce = sample_nonce, plaintext = replicate 8 0\<rparr>) \<and>
   \<not> final_read_only_hash toy (sample_cryptor 8 32) (istream_of (replicate 32 9)) (sink 100)"
  by code_simp

section \<open>A stream without its last chunk\<close>

lemma length_concat_full:
  "\<forall>x \<in> set xs. length x = n \<Longrightarrow> length (concat xs) = length xs * n"
  by (induction xs) simp_all

lemma butlast_chunks_full:
  assumes ok: "primitives_ok pr" and bs: "0 < blocksize' fc"
  shows "\<forall>x \<in> set (butlast (chunks pr fc P)). length x = chunksize pr fc"
proof
  fix x assume x: "x \<in> set (butlast (chunks pr fc P))"
  have "x \<in> set (map (chunk pr fc P) [0..<length P div blocksize' fc])"
  proof (cases "length P mod blocksize' fc = 0")
    case True
    with bs have "chunks pr fc P = map (chunk pr fc P) [0..<length P div blocksize' fc]"
      by (simp add: chunks_split)
    with x show ?thesis by (auto dest: in_set_butlastD)
  next
    case False
    with bs have "butlast (chunks pr fc P) = map (chunk pr fc P) [0..<length P div blocksize' fc]"
      by (simp add: chunks_split butlast_append)
    with x show ?thesis by simp
  qed
  with full_chunks_length [OF ok, of fc P] show "length x = chunksize pr fc" by blast
qed

lemma truncated_parts:
  assumes ok: "primitives_ok pr"
  shows "length (truncated pr fc P) - hashsize' fc = length (concat (butlast (chunks pr fc P)))"
    and "take (length (truncated pr fc P) - hashsize' fc) (truncated pr fc P) =
           concat (butlast (chunks pr fc P))"
    and "drop (length (truncated pr fc P) - hashsize' fc) (truncated pr fc P) =
           digest pr fc (chunks pr fc P)"
    and "hashsize' fc \<le> length (truncated pr fc P)"
  using length_digest [OF ok, of fc "chunks pr fc P"] by (simp_all add: truncated_def)

lemma truncated_blocks:
  assumes ok: "primitives_ok pr" and bs: "0 < blocksize' fc"
  shows "blocks (chunksize pr fc)
           (take (length (truncated pr fc P) - hashsize' fc) (truncated pr fc P)) =
         butlast (chunks pr fc P)"
proof -
  have C: "0 < chunksize pr fc" using bs by simp
  from blocks_concat [OF C butlast_chunks_full [OF ok bs], of "[]" P]
  show ?thesis unfolding truncated_parts(2) [OF ok] by simp
qed

lemma truncated_tail:
  assumes ok: "primitives_ok pr" and bs: "0 < blocksize' fc"
  shows "tail_len pr fc (truncated pr fc P) = 0"
  unfolding truncated_parts(1) [OF ok]
  by (simp add: length_concat_full [OF butlast_chunks_full [OF ok bs]])

lemma truncated_opens:
  assumes ok: "primitives_ok pr" and bs: "0 < blocksize' fc"
  shows "\<forall>i < n_pieces pr fc (truncated pr fc P). dec_opens pr fc (truncated pr fc P) i"
proof (intro allI impI)
  fix i assume "i < n_pieces pr fc (truncated pr fc P)"
  then have i: "i < length (butlast (chunks pr fc P))"
    unfolding truncated_blocks [OF ok bs] .
  then have ic: "i < length (chunks pr fc P)" by simp
  have "dec_piece pr fc (truncated pr fc P) i =
      blocks (chunksize pr fc)
        (take (length (truncated pr fc P) - hashsize' fc) (truncated pr fc P)) ! i"
    using i unfolding truncated_blocks [OF ok bs, symmetric] by (rule nth_pieces [symmetric])
  also have "\<dots> = butlast (chunks pr fc P) ! i"
    unfolding truncated_blocks [OF ok bs] ..
  also have "\<dots> = chunks pr fc P ! i" using i by (rule nth_butlast)
  also have "\<dots> = chunk pr fc P i" using ic by (simp add: chunks_def)
  finally have "dec_piece pr fc (truncated pr fc P) i = chunk pr fc P i" .
  with chunk_opens [OF ok, of fc P i]
  show "dec_opens pr fc (truncated pr fc P) i"
    by (simp add: dec_opens_def)
qed

lemma length_truncated:
  assumes ok: "primitives_ok pr" and bs: "0 < blocksize' fc"
  shows "length (truncated pr fc P) =
     (length (blocks (blocksize' fc) P) - 1) * chunksize pr fc + hashsize' fc"
proof -
  have "length (concat (butlast (chunks pr fc P))) =
      length (butlast (chunks pr fc P)) * chunksize pr fc"
    using butlast_chunks_full [OF ok bs] by (rule length_concat_full)
  also have "length (butlast (chunks pr fc P)) = length (blocks (blocksize' fc) P) - 1"
    by (simp add: chunks_def)
  finally show ?thesis
    using length_digest [OF ok, of fc "chunks pr fc P"] by (simp add: truncated_def)
qed

text \<open>
  C3. The comparison of the recomputed hash with the saved one comes after the loop and
  the final chunk, and a mismatch is the integrity error (\<open>decrypt_hash\<close>). For the
  stream of a plaintext without its last chunk and with the original trailer, every
  remaining chunk opens, and \<open>decrypt\<close> ends in that comparison only when a full chunk is
  longer than the hash block; otherwise the read that reaches the hash block is a
  full-size read, trimmed to nothing in the loop, and the empty chunk fails in the chunk
  decryption before any hash is compared.
\<close>

theorem decrypt_truncated:
  assumes "primitives_ok pr" and "0 < MACSIZE pr" and "0 < blocksize' fc"
    and "\<not> badbit o_s" and "length (truncated pr fc P) \<le> room o_s"
  shows "\<exists>f. decrypt pr fc (istream_of (truncated pr fc P)) o_s =
           Some (if MACSIZE pr + blocksize' fc \<le> hashsize' fc then Some AuthFailure
                 else if digest pr fc (butlast (chunks pr fc P)) \<noteq> digest pr fc (chunks pr fc P)
                 then Some IntegrityFailure else None, f)"
proof -
  let ?S = "truncated pr fc P"
  have H: "hashsize' fc \<le> length ?S" using assms(1) by (rule truncated_parts(4))
  note opens = truncated_opens [OF assms(1,3), of P]
  from decrypt_result [OF assms(1,2) H assms(4,5) opens] obtain f where all:
    "decrypt pr fc (istream_of ?S) o_s =
       Some (if tail_len pr fc ?S = 0 \<and> chunksize pr fc \<le> hashsize' fc then Some AuthFailure
             else if digest pr fc (blocks (chunksize pr fc) (take (length ?S - hashsize' fc) ?S))
                       \<noteq> drop (length ?S - hashsize' fc) ?S
             then Some IntegrityFailure else None, f) \<and>
     ostr f = ostr (dec_at pr fc ?S o_s (n_pieces pr fc ?S)) \<and>
     (tail_len pr fc ?S = 0 \<and> chunksize pr fc \<le> hashsize' fc \<longrightarrow> ciphertext f = []) \<and>
     (\<not> (tail_len pr fc ?S = 0 \<and> chunksize pr fc \<le> hashsize' fc) \<longrightarrow>
        state f = absorbed pr fc (blocks (chunksize pr fc) (take (length ?S - hashsize' fc) ?S)) \<and>
        hash_saved f = drop (length ?S - hashsize' fc) ?S)" ..
  have run: "decrypt pr fc (istream_of ?S) o_s =
       Some (if MACSIZE pr + blocksize' fc \<le> hashsize' fc then Some AuthFailure
             else if digest pr fc (butlast (chunks pr fc P)) \<noteq> digest pr fc (chunks pr fc P)
             then Some IntegrityFailure else None, f)"
    using conjunct1 [OF all]
    unfolding truncated_tail [OF assms(1,3)] truncated_blocks [OF assms(1,3)]
      truncated_parts(3) [OF assms(1)]
    by (simp only: simp_thms)
  then show ?thesis by (rule exI)
qed

theorem decrypt_truncated_witness:
  "primitives_ok toy \<and> 0 < MACSIZE toy \<and> 0 < blocksize' (sample_cryptor 4 32) \<and>
   \<not> badbit (sink 100) \<and>
   length (truncated toy (sample_cryptor 4 32) [65, 66, 67, 68, 69, 70, 71, 72, 73]) \<le> room (sink 100) \<and>
   MACSIZE toy + blocksize' (sample_cryptor 4 32) \<le> hashsize' (sample_cryptor 4 32) \<and>
   (\<exists>f. decrypt toy (sample_cryptor 4 32)
          (istream_of (truncated toy (sample_cryptor 4 32) [65, 66, 67, 68, 69, 70, 71, 72, 73]))
          (sink 100) = Some (Some AuthFailure, f))"
proof -
  let ?fc = "sample_cryptor 4 32"
  let ?P = "[65, 66, 67, 68, 69, 70, 71, 72, 73] :: data_t"
  have mac: "0 < MACSIZE toy" by (simp add: toy_def)
  have bs: "0 < blocksize' ?fc" by (simp add: sample_cryptor_def)
  have good: "\<not> badbit (sink 100)" by (simp add: sink_def)
  have fits: "length (truncated toy ?fc ?P) \<le> room (sink 100)"
    by (simp add: length_truncated [OF toy_ok bs] length_blocks [OF bs])
      (simp add: sample_cryptor_def toy_def sink_def)
  have small: "MACSIZE toy + blocksize' ?fc \<le> hashsize' ?fc"
    by (simp add: sample_cryptor_def toy_def)
  from decrypt_truncated [OF toy_ok mac bs good fits] small
  have "\<exists>f. decrypt toy ?fc (istream_of (truncated toy ?fc ?P)) (sink 100) =
      Some (Some AuthFailure, f)"
    by simp
  with toy_ok mac bs good fits small show ?thesis by (intro conjI)
qed

end
